theory Spec2Isabelle
  imports Complex_Main "HOL-Library.Word"
begin

section \<open>Data model\<close>

text \<open>
  The four benchmarks share one harness pattern.  Pointers (\<open>void *\<close>) are 64-bit words,
  \<open>MAP_FAILED\<close> is \<open>(void *) -1\<close>.  The operation counters are \<open>uint64_t\<close>, modelled as
  \<open>64 word\<close>; the C \<open>int\<close>s (loop indices, node and CPU numbers, the command-line
  value of \<open>-s\<close>) are modelled as \<open>int\<close>.  The \<open>double\<close> field \<open>elapsed_sec\<close> is
  modelled by the real number it is computed from (rounding is not modelled).
\<close>

type_synonym addr = "64 word"

definition MAP_FAILED :: addr where
  "MAP_FAILED = - 1"

definition NULL :: addr where
  "NULL = 0"

definition REGION_SIZE :: nat where
  "REGION_SIZE = 64 * 1024"

datatype prot = PROT_READ | PROT_READ_WRITE

record timespec =
  tv_sec :: int
  tv_nsec :: int

text \<open>
  \<open>worker_data_t\<close>.  The field \<open>node\<close> exists in benchmarks 1 and 2 only; benchmarks 3
  and 4 pin the worker to \<open>WORKER_NODE\<close> and leave the field at its initial value here.
\<close>

record worker_data_t =
  node :: int
  region :: addr
  elapsed_sec :: real
  ops :: "64 word"

record spinner_data_t =
  id_s :: int
  node_s :: int
  cpu :: int
  spin_count :: "64 word"

datatype op_type_t = OP_MPROTECT | OP_MUNMAP | OP_MMAP_FULL

text \<open>
  Each thread keeps a log, in program order, of its system calls, of its increment of
  \<open>ready_count\<close>, of the polls that find \<open>go\<close> or \<open>stop_spinners\<close> set, and of the
  increments of its spin counter.  A poll that finds the flag still 0 changes nothing
  and is not logged.
\<close>

datatype event =
    EvSetAffinity "int list"
  | EvMmap addr addr
  | EvPerror
  | EvMemset addr
  | EvReadyInc
  | EvGoObserved
  | EvClock
  | EvMprotect addr prot
  | EvMunmap addr
  | EvTouch addr
  | EvSpinInc
  | EvStopObserved

text \<open>
  The operating system as seen by one thread: the result of its \<open>k\<close>-th call of \<open>mmap\<close>
  and the reading of its \<open>k\<close>-th call of \<open>clock_gettime\<close>.  The results of \<open>mprotect\<close>
  and \<open>munmap\<close> are not part of it, because the code never looks at them.
\<close>

record os_env =
  mmap_result :: "nat \<Rightarrow> addr"
  clock_result :: "nat \<Rightarrow> timespec"

record wstate =
  wdata :: worker_data_t
  mmap_calls :: nat
  clock_calls :: nat
  tstart :: timespec
  tend :: timespec
  wlog :: "event list"

section \<open>System calls\<close>

definition sys_mmap :: "os_env \<Rightarrow> addr \<Rightarrow> wstate \<Rightarrow> wstate" where
  "sys_mmap E hint st =
     (let r = mmap_result E (mmap_calls st) in
      st\<lparr>wdata := (wdata st)\<lparr>region := r\<rparr>,
         mmap_calls := Suc (mmap_calls st),
         wlog := wlog st @ [EvMmap hint r]\<rparr>)"

definition sys_perror :: "wstate \<Rightarrow> wstate" where
  "sys_perror st = st\<lparr>wlog := wlog st @ [EvPerror]\<rparr>"

definition sys_memset :: "wstate \<Rightarrow> wstate" where
  "sys_memset st = st\<lparr>wlog := wlog st @ [EvMemset (region (wdata st))]\<rparr>"

definition sys_mprotect :: "prot \<Rightarrow> wstate \<Rightarrow> wstate" where
  "sys_mprotect p st = st\<lparr>wlog := wlog st @ [EvMprotect (region (wdata st)) p]\<rparr>"

definition sys_munmap :: "wstate \<Rightarrow> wstate" where
  "sys_munmap st = st\<lparr>wlog := wlog st @ [EvMunmap (region (wdata st))]\<rparr>"

definition clock_start :: "os_env \<Rightarrow> wstate \<Rightarrow> wstate" where
  "clock_start E st =
     st\<lparr>tstart := clock_result E (clock_calls st),
        clock_calls := Suc (clock_calls st),
        wlog := wlog st @ [EvClock]\<rparr>"

definition clock_end :: "os_env \<Rightarrow> wstate \<Rightarrow> wstate" where
  "clock_end E st =
     st\<lparr>tend := clock_result E (clock_calls st),
        clock_calls := Suc (clock_calls st),
        wlog := wlog st @ [EvClock]\<rparr>"

definition elapsed :: "timespec \<Rightarrow> timespec \<Rightarrow> real" where
  "elapsed s e =
     real_of_int (tv_sec e - tv_sec s) + real_of_int (tv_nsec e - tv_nsec s) / 1000000000"

definition set_elapsed :: "wstate \<Rightarrow> wstate" where
  "set_elapsed st = st\<lparr>wdata := (wdata st)\<lparr>elapsed_sec := elapsed (tstart st) (tend st)\<rparr>\<rparr>"

section \<open>The three workloads\<close>

subsection \<open>PROTECT_TOGGLE\<close>

definition mprotect_body :: "wstate \<Rightarrow> wstate" where
  "mprotect_body st =
     (let st1 = sys_mprotect PROT_READ st;
          st2 = sys_mprotect PROT_READ_WRITE st1
      in st2\<lparr>wdata := (wdata st2)\<lparr>ops := ops (wdata st2) + 2\<rparr>\<rparr>)"

function mprotect_loop :: "int \<Rightarrow> int \<Rightarrow> wstate \<Rightarrow> wstate" where
  "mprotect_loop n i st = (if i < n then mprotect_loop n (i + 1) (mprotect_body st) else st)"
  by pat_completeness auto
termination
  by (relation "measure (\<lambda>(n, i, st). nat (n - i))") auto

declare mprotect_loop.simps [simp del]

text \<open>\<open>do_mprotect_workload\<close> of benchmark 4; the parameter \<open>n\<close> is \<open>NUM_OPS\<close>.\<close>

definition do_mprotect_workload :: "os_env \<Rightarrow> int \<Rightarrow> wstate \<Rightarrow> wstate" where
  "do_mprotect_workload E n st =
     (let st1 = sys_mmap E NULL st in
      if region (wdata st1) = MAP_FAILED then sys_perror st1
      else
        let st2 = sys_memset st1;
            st3 = clock_start E st2;
            st4 = mprotect_loop n 0 st3;
            st5 = clock_end E st4;
            st6 = set_elapsed st5
        in sys_munmap st6)"

subsection \<open>UNMAP_REMAP\<close>

text \<open>The loop of \<open>do_munmap_workload\<close>; a failed remap leaves it by \<open>break\<close>.\<close>

function munmap_loop :: "os_env \<Rightarrow> int \<Rightarrow> int \<Rightarrow> wstate \<Rightarrow> wstate" where
  "munmap_loop E n i st =
     (if i < n then
        (let addr = region (wdata st);
             st1 = sys_munmap st;
             st2 = sys_mmap E addr st1
         in if region (wdata st2) = MAP_FAILED then sys_perror st2
            else munmap_loop E n (i + 1) (st2\<lparr>wdata := (wdata st2)\<lparr>ops := ops (wdata st2) + 1\<rparr>\<rparr>))
      else st)"
  by pat_completeness auto
termination
  by (relation "measure (\<lambda>(E, n, i, st). nat (n - i))") auto

declare munmap_loop.simps [simp del]

definition do_munmap_workload :: "os_env \<Rightarrow> int \<Rightarrow> wstate \<Rightarrow> wstate" where
  "do_munmap_workload E n st =
     (let st1 = sys_mmap E NULL st in
      if region (wdata st1) = MAP_FAILED then sys_perror st1
      else
        let st2 = sys_memset st1;
            st3 = clock_start E st2;
            st4 = munmap_loop E n 0 st3;
            st5 = clock_end E st4;
            st6 = set_elapsed st5
        in if region (wdata st6) \<noteq> MAP_FAILED then sys_munmap st6 else st6)"

subsection \<open>MAP_TOUCH_UNMAP\<close>

definition sys_touch_at :: "nat \<Rightarrow> wstate \<Rightarrow> wstate" where
  "sys_touch_at off st = st\<lparr>wlog := wlog st @ [EvTouch (region (wdata st) + of_nat off)]\<rparr>"

function mmap_full_loop :: "os_env \<Rightarrow> int \<Rightarrow> int \<Rightarrow> wstate \<Rightarrow> wstate" where
  "mmap_full_loop E n i st =
     (if i < n then
        (let st1 = sys_mmap E NULL st
         in if region (wdata st1) = MAP_FAILED then sys_perror st1
            else
              let st2 = sys_touch_at 0 st1;
                  st3 = sys_touch_at (REGION_SIZE - 1) st2;
                  st4 = sys_munmap st3
              in mmap_full_loop E n (i + 1) (st4\<lparr>wdata := (wdata st4)\<lparr>ops := ops (wdata st4) + 1\<rparr>\<rparr>))
      else st)"
  by pat_completeness auto
termination
  by (relation "measure (\<lambda>(E, n, i, st). nat (n - i))") auto

declare mmap_full_loop.simps [simp del]

definition do_mmap_full_workload :: "os_env \<Rightarrow> int \<Rightarrow> wstate \<Rightarrow> wstate" where
  "do_mmap_full_workload E n st =
     (let st1 = clock_start E st;
          st2 = mmap_full_loop E n 0 st1;
          st3 = clock_end E st2
      in set_elapsed st3)"

section \<open>Topology query and affinity binding\<close>

text \<open>
  The part of libnuma the code uses: \<open>numa_available\<close>, \<open>numa_num_configured_nodes\<close>,
  \<open>numa_num_configured_cpus\<close> and \<open>numa_node_to_cpus\<close>, which fills a CPU bit mask or
  fails (\<open>None\<close>).
\<close>

record numa_topology =
  numa_available :: bool
  configured_nodes :: int
  configured_cpus :: int
  node_to_cpus :: "int \<Rightarrow> (int \<Rightarrow> bool) option"

definition WORKER_NODE :: int where
  "WORKER_NODE = 0"

text \<open>The scan of \<open>get_cpu_for_node\<close>: the \<open>index\<close>-th set bit of the mask, or \<open>-1\<close>.\<close>

function cpu_scan :: "(int \<Rightarrow> bool) \<Rightarrow> int \<Rightarrow> int \<Rightarrow> int \<Rightarrow> int \<Rightarrow> int" where
  "cpu_scan bits ncpus index i count =
     (if i < ncpus then
        (if bits i then
           (if count = index then i else cpu_scan bits ncpus index (i + 1) (count + 1))
         else cpu_scan bits ncpus index (i + 1) count)
      else - 1)"
  by pat_completeness auto
termination
  by (relation "measure (\<lambda>(bits, ncpus, index, i, count). nat (ncpus - i))") auto

declare cpu_scan.simps [simp del]

definition get_cpu_for_node :: "numa_topology \<Rightarrow> int \<Rightarrow> int \<Rightarrow> int" where
  "get_cpu_for_node T nd index =
     (case node_to_cpus T nd of
        None \<Rightarrow> - 1
      | Some bits \<Rightarrow> cpu_scan bits (configured_cpus T) index 0 0)"

definition pin_to_cpu :: "int \<Rightarrow> event list" where
  "pin_to_cpu c = [EvSetAffinity [c]]"

definition pin_to_node_first_cpu :: "numa_topology \<Rightarrow> int \<Rightarrow> event list" where
  "pin_to_node_first_cpu T nd =
     (let c = get_cpu_for_node T nd 0 in if c \<ge> 0 then pin_to_cpu c else [])"

text \<open>
  \<open>pin_to_node\<close> of benchmarks 1 and 2: the CPU set holds the first CPU of the node, or
  nothing when the mask is empty; \<open>sched_setaffinity\<close> is called with it either way.
\<close>

function first_cpu :: "(int \<Rightarrow> bool) \<Rightarrow> int \<Rightarrow> int \<Rightarrow> int list" where
  "first_cpu bits ncpus i =
     (if i < ncpus then (if bits i then [i] else first_cpu bits ncpus (i + 1)) else [])"
  by pat_completeness auto
termination
  by (relation "measure (\<lambda>(bits, ncpus, i). nat (ncpus - i))") auto

declare first_cpu.simps [simp del]

definition pin_to_node :: "numa_topology \<Rightarrow> int \<Rightarrow> event list" where
  "pin_to_node T nd =
     (case node_to_cpus T nd of
        None \<Rightarrow> []
      | Some bits \<Rightarrow> [EvSetAffinity (first_cpu bits (configured_cpus T) 0)])"

section \<open>Harness driver: creating the threads\<close>

text \<open>
  \<open>ExitFailure\<close> is \<open>return 1\<close> from \<open>main\<close>.  Signed overflow in the computation of the
  derived counts is undefined behaviour in C and is an error of its own here.  The
  argument \<open>ok\<close> says whether the \<open>pthread_create\<close> for thread number \<open>k\<close> succeeds.
\<close>

datatype error = ExitFailure | SignedOverflow

definition int_ok :: "int \<Rightarrow> bool" where
  "int_ok x = (- 2147483648 \<le> x \<and> x \<le> 2147483647)"

text \<open>
  Benchmarks 3 and 4: the two nested loops that create the spinners.  The accumulator
  is the filled prefix of \<open>spinner_data\<close>; its length is \<open>idx\<close>.
\<close>

function spinner_loop ::
  "numa_topology \<Rightarrow> (nat \<Rightarrow> bool) \<Rightarrow> int \<Rightarrow> int \<Rightarrow> int \<Rightarrow> spinner_data_t list
     \<Rightarrow> error + spinner_data_t list" where
  "spinner_loop T ok S nd s acc =
     (if s < S then
        (let c = get_cpu_for_node T nd s in
         if c < 0 then spinner_loop T ok S nd (s + 1) acc
         else if \<not> ok (length acc) then Inl ExitFailure
         else spinner_loop T ok S nd (s + 1)
                (acc @ [\<lparr>id_s = int (length acc), node_s = nd, cpu = c, spin_count = 0\<rparr>]))
      else Inr acc)"
  by pat_completeness auto
termination
  by (relation "measure (\<lambda>(T, ok, S, nd, s, acc). nat (S - s))") auto

declare spinner_loop.simps [simp del]

function node_loop ::
  "numa_topology \<Rightarrow> (nat \<Rightarrow> bool) \<Rightarrow> int \<Rightarrow> int \<Rightarrow> int \<Rightarrow> spinner_data_t list
     \<Rightarrow> error + spinner_data_t list" where
  "node_loop T ok S M nd acc =
     (if nd < M then
        (if nd = WORKER_NODE then node_loop T ok S M (nd + 1) acc
         else case spinner_loop T ok S nd 0 acc of
                Inl e \<Rightarrow> Inl e
              | Inr acc' \<Rightarrow> node_loop T ok S M (nd + 1) acc')
      else Inr acc)"
  by pat_completeness auto
termination
  by (relation "measure (\<lambda>(T, ok, S, M, nd, acc). nat (M - nd))") auto

declare node_loop.simps [simp del]

text \<open>
  \<open>main\<close> of benchmarks 3 and 4 from the topology query to the creation of the worker:
  the result is the list of spinners created, \<open>total_spinners\<close> and \<open>expected_ready\<close>
  as they stand when the ready-wait begins.  \<open>S\<close> is \<open>spinners_per_node\<close>.
\<close>

definition create_worker ::
  "(nat \<Rightarrow> bool) \<Rightarrow> spinner_data_t list \<times> int \<times> int
     \<Rightarrow> error + spinner_data_t list \<times> int \<times> int" where
  "create_worker ok r = (if ok (length (fst r)) then Inr r else Inl ExitFailure)"

definition main_setup ::
  "numa_topology \<Rightarrow> (nat \<Rightarrow> bool) \<Rightarrow> int \<Rightarrow> error + spinner_data_t list \<times> int \<times> int" where
  "main_setup T ok S =
     (if \<not> numa_available T then Inl ExitFailure
      else
        let M = configured_nodes T in
        if \<not> int_ok (M - 1) \<or> \<not> int_ok (S * (M - 1)) \<or> \<not> int_ok (S * (M - 1) + 1)
        then Inl SignedOverflow
        else
          let total_spinners = S * (M - 1);
              expected_ready = total_spinners + 1
          in if total_spinners > 0 then
               (case node_loop T ok S M 0 [] of
                  Inl e \<Rightarrow> Inl e
                | Inr sds \<Rightarrow> create_worker ok (sds, int (length sds), int (length sds) + 1))
             else create_worker ok ([], total_spinners, expected_ready))"

text \<open>Benchmarks 1 and 2: one worker per node; \<open>calloc\<close> zero-fills the records.\<close>

function create_workers ::
  "(nat \<Rightarrow> bool) \<Rightarrow> int \<Rightarrow> int \<Rightarrow> worker_data_t list \<Rightarrow> error + worker_data_t list" where
  "create_workers ok M i acc =
     (if i < M then
        (if \<not> ok (length acc) then Inl ExitFailure
         else create_workers ok M (i + 1)
                (acc @ [\<lparr>node = i, region = 0, elapsed_sec = 0, ops = 0\<rparr>]))
      else Inr acc)"
  by pat_completeness auto
termination
  by (relation "measure (\<lambda>(ok, M, i, acc). nat (M - i))") auto

declare create_workers.simps [simp del]

section \<open>Threads and the ready/go/stop barrier\<close>

text \<open>
  The program counter of a participant: \<open>PStart\<close> before its setup, \<open>PReady\<close> before the
  increment of \<open>ready_count\<close>, \<open>PPoll\<close> in the loop \<open>while (!go)\<close>, \<open>PMain\<close> in its main
  loop, \<open>PDone\<close> after a normal return, \<open>PFailed\<close> after the early return of a worker
  whose first \<open>mmap\<close> failed.
\<close>

datatype pc = PStart | PReady | PPoll | PMain | PDone | PFailed

datatype bench = Bench1 | Bench2 | Bench3 | Bench4

definition NUM_OPS :: "bench \<Rightarrow> int" where
  "NUM_OPS b = (case b of Bench1 \<Rightarrow> 20000 | Bench2 \<Rightarrow> 10000 | Bench3 \<Rightarrow> 20000 | Bench4 \<Rightarrow> 10000)"

definition is12 :: "bench \<Rightarrow> bool" where
  "is12 b = (b = Bench1 \<or> b = Bench2)"

record spinner_t =
  spc :: pc
  sdata :: spinner_data_t
  slog :: "event list"

record worker_t =
  wpc :: pc
  wst :: wstate

text \<open>
  What is fixed once the threads exist: the benchmark, \<open>NUM_OPS\<close>, the operation of
  benchmark 4, the topology, the operating system of each worker, and the driver's
  \<open>num_nodes\<close>, \<open>total_spinners\<close> and \<open>expected_ready\<close>.
\<close>

record config =
  bench :: bench
  num_ops :: int
  operation :: op_type_t
  topo :: numa_topology
  env :: "nat \<Rightarrow> os_env"
  num_nodes :: int
  total_spinners :: int
  expected_ready :: int

text \<open>The bound of the driver's ready-wait loop.\<close>

definition ready_target :: "config \<Rightarrow> int" where
  "ready_target C = (if is12 (bench C) then num_nodes C else expected_ready C)"

subsection \<open>Spinner\<close>

text \<open>
  One step of \<open>spinner\<close>, given the values of \<open>go\<close> and \<open>stop_spinners\<close> it reads.  The
  increment of \<open>ready_count\<close> itself is done in \<open>step\<close> below, at \<open>PReady\<close>.
\<close>

definition spinner_step :: "int \<Rightarrow> int \<Rightarrow> spinner_t \<Rightarrow> spinner_t" where
  "spinner_step g s t =
     (case spc t of
        PStart \<Rightarrow> t\<lparr>spc := PReady, slog := slog t @ pin_to_cpu (cpu (sdata t))\<rparr>
      | PReady \<Rightarrow> t\<lparr>spc := PPoll, slog := slog t @ [EvReadyInc]\<rparr>
      | PPoll \<Rightarrow>
          if g \<noteq> 0 then t\<lparr>spc := PMain, slog := slog t @ [EvGoObserved]\<rparr> else t
      | PMain \<Rightarrow>
          if s \<noteq> 0 then t\<lparr>spc := PDone, slog := slog t @ [EvStopObserved]\<rparr>
          else t\<lparr>sdata := (sdata t)\<lparr>spin_count := spin_count (sdata t) + 1\<rparr>,
                 slog := slog t @ [EvSpinInc]\<rparr>
      | PDone \<Rightarrow> t
      | PFailed \<Rightarrow> t)"

subsection \<open>Worker\<close>

definition log_events :: "event list \<Rightarrow> wstate \<Rightarrow> wstate" where
  "log_events es st = st\<lparr>wlog := wlog st @ es\<rparr>"

text \<open>
  \<open>worker\<close> of benchmarks 1, 2 and 3 up to the ready increment: pin, map the region,
  return if that failed, fault the region in.
\<close>

definition worker_setup :: "bench \<Rightarrow> numa_topology \<Rightarrow> os_env \<Rightarrow> wstate \<Rightarrow> wstate" where
  "worker_setup b T E st =
     (let st1 = (if b = Bench3 then log_events (pin_to_node_first_cpu T WORKER_NODE) st
                 else log_events (pin_to_node T (node (wdata st))) st);
          st2 = sys_mmap E NULL st1
      in if region (wdata st2) = MAP_FAILED then sys_perror st2 else sys_memset st2)"

text \<open>\<open>worker\<close> of benchmarks 1, 2 and 3 after the poll loop.\<close>

definition worker_timed :: "os_env \<Rightarrow> int \<Rightarrow> wstate \<Rightarrow> wstate" where
  "worker_timed E n st =
     (let st1 = clock_start E st;
          st2 = mprotect_loop n 0 st1;
          st3 = clock_end E st2;
          st4 = set_elapsed st3
      in sys_munmap st4)"

text \<open>The \<open>switch (operation)\<close> of the worker of benchmark 4.\<close>

definition run_workload :: "op_type_t \<Rightarrow> os_env \<Rightarrow> int \<Rightarrow> wstate \<Rightarrow> wstate" where
  "run_workload opn E n st =
     (case opn of
        OP_MPROTECT \<Rightarrow> do_mprotect_workload E n st
      | OP_MUNMAP \<Rightarrow> do_munmap_workload E n st
      | OP_MMAP_FULL \<Rightarrow> do_mmap_full_workload E n st)"

definition worker_step :: "config \<Rightarrow> os_env \<Rightarrow> int \<Rightarrow> worker_t \<Rightarrow> worker_t" where
  "worker_step C E g t =
     (case wpc t of
        PStart \<Rightarrow>
          if bench C = Bench4
          then t\<lparr>wpc := PReady, wst := log_events (pin_to_node_first_cpu (topo C) WORKER_NODE) (wst t)\<rparr>
          else
            let st = worker_setup (bench C) (topo C) E (wst t)
            in if region (wdata st) = MAP_FAILED then t\<lparr>wpc := PFailed, wst := st\<rparr>
               else t\<lparr>wpc := PReady, wst := st\<rparr>
      | PReady \<Rightarrow> t\<lparr>wpc := PPoll, wst := log_events [EvReadyInc] (wst t)\<rparr>
      | PPoll \<Rightarrow>
          if g \<noteq> 0 then t\<lparr>wpc := PMain, wst := log_events [EvGoObserved] (wst t)\<rparr> else t
      | PMain \<Rightarrow>
          if bench C = Bench4
          then t\<lparr>wpc := PDone, wst := run_workload (operation C) E (num_ops C) (wst t)\<rparr>
          else t\<lparr>wpc := PDone, wst := worker_timed E (num_ops C) (wst t)\<rparr>
      | PDone \<Rightarrow> t
      | PFailed \<Rightarrow> t)"

subsection \<open>Driver\<close>

text \<open>
  The result of a division of two finite \<open>double\<close>s, with the divisions by zero that
  the report can run into written out.
\<close>

datatype c_double = Finite real | PosInf | NegInf | NaN

definition fdiv :: "real \<Rightarrow> real \<Rightarrow> c_double" where
  "fdiv a b =
     (if b \<noteq> 0 then Finite (a / b)
      else if a = 0 then NaN
      else if a > 0 then PosInf else NegInf)"

text \<open>
  The lines of the final report that depend on the results: the operation count, the
  wall time, the throughput and (benchmarks 2 to 4) the latency per operation.
\<close>

record report =
  rep_ops :: "64 word"
  rep_time :: real
  rep_throughput :: c_double
  rep_latency :: "c_double option"

text \<open>
  The driver after thread creation: \<open>DWait\<close> is the ready-wait loop, \<open>DArm\<close> the store
  \<open>go = 1\<close>, \<open>DJoinWorker\<close> the join of the worker and \<open>DStop\<close> the store
  \<open>stop_spinners = 1\<close> (benchmarks 3 and 4), \<open>DJoin i\<close> the join loop at index \<open>i\<close>
  (over the workers in benchmarks 1 and 2, over the spinners in 3 and 4), \<open>DDone\<close> the
  state after the report.  \<open>DCrashed\<close> is the integer division by zero of benchmark 2's
  latency line when \<open>num_nodes\<close> is 0.
\<close>

datatype dpc = DWait | DArm | DJoinWorker | DStop | DJoin int | DDone | DCrashed

record gstate =
  ready_count :: int
  go :: int
  stop_spinners :: int
  spinners :: "spinner_t list"
  workers :: "worker_t list"
  dpc :: dpc
  total_ops :: "64 word"
  max_time :: real
  report :: "report option"

definition terminated :: "pc \<Rightarrow> bool" where
  "terminated p = (p = PDone \<or> p = PFailed)"

text \<open>The body of the join loop of benchmarks 1 and 2 on \<open>total_ops\<close> and \<open>max_time\<close>.\<close>

definition join_acc :: "64 word \<times> real \<Rightarrow> worker_data_t \<Rightarrow> 64 word \<times> real" where
  "join_acc a d =
     (fst a + ops d, if elapsed_sec d > snd a then elapsed_sec d else snd a)"


definition finish12 :: "config \<Rightarrow> gstate \<Rightarrow> gstate" where
  "finish12 C g =
     (if bench C = Bench2 then
        (if (word_of_int (num_nodes C) :: 64 word) = 0 then g\<lparr>dpc := DCrashed\<rparr>
         else g\<lparr>dpc := DDone,
                report := Some \<lparr>rep_ops = total_ops g, rep_time = max_time g,
                  rep_throughput = fdiv (real (unat (total_ops g))) (max_time g),
                  rep_latency = Some (fdiv (max_time g * 1000000)
                    (real (unat (total_ops g div word_of_int (num_nodes C)))))\<rparr>\<rparr>)
      else g\<lparr>dpc := DDone,
             report := Some \<lparr>rep_ops = total_ops g, rep_time = max_time g,
               rep_throughput = fdiv (real (unat (total_ops g))) (max_time g),
               rep_latency = None\<rparr>\<rparr>)"

definition report34 :: "worker_data_t \<Rightarrow> report" where
  "report34 d =
     \<lparr>rep_ops = ops d, rep_time = elapsed_sec d,
      rep_throughput = fdiv (real (unat (ops d))) (elapsed_sec d),
      rep_latency = Some (fdiv (elapsed_sec d * 1000000) (real (unat (ops d))))\<rparr>"

definition finish34 :: "gstate \<Rightarrow> gstate" where
  "finish34 g =
     (case workers g of
        [] \<Rightarrow> g
      | w # ws \<Rightarrow> g\<lparr>dpc := DDone, report := Some (report34 (wdata (wst w)))\<rparr>)"

text \<open>
  One step of the driver.  \<open>pthread_join\<close> blocks until the thread has returned: the
  step leaves the state as it is until then.
\<close>

definition driver_step :: "config \<Rightarrow> gstate \<Rightarrow> gstate" where
  "driver_step C g =
     (case dpc g of
        DWait \<Rightarrow> if ready_count g < ready_target C then g else g\<lparr>dpc := DArm\<rparr>
      | DArm \<Rightarrow> g\<lparr>go := 1, dpc := (if is12 (bench C) then DJoin 0 else DJoinWorker)\<rparr>
      | DJoinWorker \<Rightarrow>
          (case workers g of
             [] \<Rightarrow> g
           | w # ws \<Rightarrow> if terminated (wpc w) then g\<lparr>dpc := DStop\<rparr> else g)
      | DStop \<Rightarrow> g\<lparr>stop_spinners := 1, dpc := DJoin 0\<rparr>
      | DJoin i \<Rightarrow>
          if is12 (bench C) then
            (if i < num_nodes C then
               (if 0 \<le> i \<and> nat i < length (workers g) \<and> terminated (wpc (workers g ! nat i))
                then
                  let a = join_acc (total_ops g, max_time g) (wdata (wst (workers g ! nat i)))
                  in g\<lparr>total_ops := fst a, max_time := snd a, dpc := DJoin (i + 1)\<rparr>
                else g)
             else finish12 C g)
          else
            (if total_spinners C > 0 \<and> i < total_spinners C then
               (if 0 \<le> i \<and> nat i < length (spinners g) \<and> terminated (spc (spinners g ! nat i))
                then g\<lparr>dpc := DJoin (i + 1)\<rparr>
                else g)
             else finish34 g)
      | DDone \<Rightarrow> g
      | DCrashed \<Rightarrow> g)"

subsection \<open>The whole system\<close>

text \<open>
  A run is a schedule: the list of who takes the next step.  The shared variables are
  read and written one access at a time (\<open>volatile\<close>, \<open>__sync_fetch_and_add\<close>, full
  fences), so every interleaving of the steps is a run and every run is one.
  A thread writes \<open>ready_count\<close> at \<open>PReady\<close> and nothing else that is shared.
\<close>

datatype actor = Driver | Spinner nat | Worker nat

definition step :: "config \<Rightarrow> actor \<Rightarrow> gstate \<Rightarrow> gstate" where
  "step C a g =
     (case a of
        Driver \<Rightarrow> driver_step C g
      | Spinner i \<Rightarrow>
          if i < length (spinners g) then
            g\<lparr>ready_count := (if spc (spinners g ! i) = PReady then ready_count g + 1
                               else ready_count g),
              spinners := (spinners g)[i := spinner_step (go g) (stop_spinners g) (spinners g ! i)]\<rparr>
          else g
      | Worker i \<Rightarrow>
          if i < length (workers g) then
            g\<lparr>ready_count := (if wpc (workers g ! i) = PReady then ready_count g + 1
                               else ready_count g),
              workers := (workers g)[i := worker_step C (env C i) (go g) (workers g ! i)]\<rparr>
          else g)"

definition run :: "config \<Rightarrow> actor list \<Rightarrow> gstate \<Rightarrow> gstate" where
  "run C sched g = fold (step C) sched g"

subsection \<open>Initial states\<close>

definition new_spinner :: "spinner_data_t \<Rightarrow> spinner_t" where
  "new_spinner d = \<lparr>spc = PStart, sdata = d, slog = []\<rparr>"

definition new_worker :: "worker_data_t \<Rightarrow> worker_t" where
  "new_worker d =
     \<lparr>wpc = PStart,
      wst = \<lparr>wdata = d, mmap_calls = 0, clock_calls = 0,
             tstart = \<lparr>tv_sec = 0, tv_nsec = 0\<rparr>, tend = \<lparr>tv_sec = 0, tv_nsec = 0\<rparr>,
             wlog = []\<rparr>\<rparr>"

definition init_state :: "spinner_data_t list \<Rightarrow> worker_data_t list \<Rightarrow> gstate" where
  "init_state sds wds =
     \<lparr>ready_count = 0, go = 0, stop_spinners = 0,
      spinners = map new_spinner sds, workers = map new_worker wds,
      dpc = DWait, total_ops = 0, max_time = 0, report = None\<rparr>"

text \<open>
  \<open>main\<close> of benchmarks 1 and 2 up to the ready-wait: the configuration and the state in
  which all workers exist, or the error with which \<open>main\<close> returned.
\<close>

definition main12 ::
  "bench \<Rightarrow> int \<Rightarrow> numa_topology \<Rightarrow> (nat \<Rightarrow> bool) \<Rightarrow> (nat \<Rightarrow> os_env)
     \<Rightarrow> error + config \<times> gstate" where
  "main12 b n T ok Es =
     (if \<not> numa_available T then Inl ExitFailure
      else
        case create_workers ok (configured_nodes T) 0 [] of
          Inl e \<Rightarrow> Inl e
        | Inr wds \<Rightarrow>
            Inr (\<lparr>bench = b, num_ops = n, operation = OP_MPROTECT, topo = T, env = Es,
                  num_nodes = configured_nodes T, total_spinners = 0, expected_ready = 0\<rparr>,
                 init_state [] wds))"

text \<open>
  \<open>main\<close> of benchmarks 3 and 4 up to the ready-wait.  \<open>worker_data\<close> is initialised
  with \<open>{0}\<close>.
\<close>

definition main34 ::
  "bench \<Rightarrow> int \<Rightarrow> op_type_t \<Rightarrow> numa_topology \<Rightarrow> (nat \<Rightarrow> bool) \<Rightarrow> os_env \<Rightarrow> int
     \<Rightarrow> error + config \<times> gstate" where
  "main34 b n opn T ok E S =
     (case main_setup T ok S of
        Inl e \<Rightarrow> Inl e
      | Inr (sds, nspin, nready) \<Rightarrow>
          Inr (\<lparr>bench = b, num_ops = n, operation = opn, topo = T, env = (\<lambda>i. E),
                num_nodes = configured_nodes T, total_spinners = nspin,
                expected_ready = nready\<rparr>,
               init_state sds [\<lparr>node = 0, region = 0, elapsed_sec = 0, ops = 0\<rparr>]))"

section \<open>Notions used to state the properties\<close>

text \<open>The events of \<open>k\<close> iterations of the protection-toggle loop on the region \<open>r\<close>.\<close>

definition toggles :: "addr \<Rightarrow> nat \<Rightarrow> event list" where
  "toggles r k = concat (replicate k [EvMprotect r PROT_READ, EvMprotect r PROT_READ_WRITE])"

text \<open>The participants that have incremented \<open>ready_count\<close>.\<close>

definition ready_pc :: "pc \<Rightarrow> bool" where
  "ready_pc p = (p = PPoll \<or> p = PMain \<or> p = PDone)"

definition started_pc :: "pc \<Rightarrow> bool" where
  "started_pc p = (p = PMain \<or> p = PDone)"

definition barrier_inv :: "config \<Rightarrow> gstate \<Rightarrow> bool" where
  "barrier_inv C g =
     ((dpc g = DWait \<or> dpc g = DArm \<longrightarrow> go g = 0) \<and>
      (dpc g \<noteq> DWait \<longrightarrow> ready_target C \<le> ready_count g) \<and>
      (\<forall>i<length (spinners g). started_pc (spc (spinners g ! i)) \<longrightarrow> go g \<noteq> 0) \<and>
      (\<forall>i<length (workers g). started_pc (wpc (workers g ! i)) \<longrightarrow> go g \<noteq> 0))"

text \<open>
  The states a worker goes through: a poll that finds \<open>go\<close> still 0 changes nothing, so
  the worker is always in one of the five states it reaches by steps that find \<open>go\<close>
  set.
\<close>

definition worker_traj :: "config \<Rightarrow> os_env \<Rightarrow> worker_data_t \<Rightarrow> worker_t list" where
  "worker_traj C E d =
     (let w0 = new_worker d;
          w1 = worker_step C E 1 w0;
          w2 = worker_step C E 1 w1;
          w3 = worker_step C E 1 w2;
          w4 = worker_step C E 1 w3
      in [w0, w1, w2, w3, w4])"

definition traj_inv :: "config \<Rightarrow> worker_data_t list \<Rightarrow> gstate \<Rightarrow> bool" where
  "traj_inv C wds g =
     (length (workers g) = length wds \<and>
      (\<forall>i<length wds. workers g ! i \<in> set (worker_traj C (env C i) (wds ! i))))"

text \<open>The number of participants that have incremented \<open>ready_count\<close>.\<close>

definition nready :: "gstate \<Rightarrow> int" where
  "nready g =
     (\<Sum>t\<leftarrow>spinners g. if ready_pc (spc t) then 1 else 0) +
     (\<Sum>t\<leftarrow>workers g. if ready_pc (wpc t) then 1 else 0)"

text \<open>The affinity binding of a worker, as events.\<close>

definition pin_events :: "config \<Rightarrow> worker_data_t \<Rightarrow> event list" where
  "pin_events C d =
     (if bench C = Bench3 \<or> bench C = Bench4 then pin_to_node_first_cpu (topo C) WORKER_NODE
      else pin_to_node (topo C) (node d))"



text \<open>
  The number of remaps that succeed before the first failure, among the \<open>m\<close> calls of
  \<open>mmap\<close> from call number \<open>c\<close> on.
\<close>

fun remap_successes :: "os_env \<Rightarrow> nat \<Rightarrow> nat \<Rightarrow> nat" where
  "remap_successes E c 0 = 0"
| "remap_successes E c (Suc m) =
     (if mmap_result E c = MAP_FAILED then 0 else Suc (remap_successes E (Suc c) m))"

text \<open>
  What holds of the driver of benchmarks 3 and 4 in every state: it passes the join of
  the worker only when the worker has returned, it sets \<open>stop_spinners\<close> before it
  joins the spinners, and its report is made from the worker's record.
\<close>

definition drv34_inv :: "gstate \<Rightarrow> bool" where
  "drv34_inv g =
     (workers g \<noteq> [] \<and>
      (dpc g = DWait \<or> dpc g = DArm \<or> dpc g = DJoinWorker \<or> terminated (wpc (workers g ! 0))) \<and>
      (dpc g = DWait \<or> dpc g = DArm \<or> dpc g = DJoinWorker \<or> dpc g = DStop
         \<or> stop_spinners g \<noteq> 0) \<and>
      (dpc g = DWait \<or> dpc g = DArm \<or> go g \<noteq> 0) \<and>
      (dpc g \<noteq> DDone \<or> report g = Some (report34 (wdata (wst (workers g ! 0))))) \<and>
      dpc g \<noteq> DCrashed \<and>
      (case dpc g of DJoin i \<Rightarrow> 0 \<le> i | _ \<Rightarrow> True))"








text \<open>
  Classes of events: the memory-management system calls, the setup of a participant
  (affinity binding, region allocation, fault-in), and the parts of a log before and
  after the increment of \<open>ready_count\<close> and after the poll that finds \<open>go\<close> set.
\<close>

definition mm_syscall :: "event \<Rightarrow> bool" where
  "mm_syscall e =
     (case e of EvMmap h r \<Rightarrow> True | EvMprotect r p \<Rightarrow> True | EvMunmap r \<Rightarrow> True
      | _ \<Rightarrow> False)"

definition setup_event :: "event \<Rightarrow> bool" where
  "setup_event e =
     (case e of EvSetAffinity cs \<Rightarrow> True | EvMmap h r \<Rightarrow> True | EvMemset r \<Rightarrow> True
      | _ \<Rightarrow> False)"

definition before_ready :: "event list \<Rightarrow> event list" where
  "before_ready l = takeWhile (\<lambda>e. e \<noteq> EvReadyInc) l"

definition after_ready :: "event list \<Rightarrow> event list" where
  "after_ready l = drop 1 (dropWhile (\<lambda>e. e \<noteq> EvReadyInc) l)"

definition after_go :: "event list \<Rightarrow> event list" where
  "after_go l = drop 1 (dropWhile (\<lambda>e. e \<noteq> EvGoObserved) l)"

text \<open>
  The log of a spinner with descriptor \<open>d\<close> at program counter \<open>p\<close> after \<open>k\<close> spin
  iterations, and the number of spin iterations in a log.
\<close>

definition spinner_log :: "spinner_data_t \<Rightarrow> pc \<Rightarrow> nat \<Rightarrow> event list" where
  "spinner_log d p k =
     (case p of
        PStart \<Rightarrow> []
      | PReady \<Rightarrow> pin_to_cpu (cpu d)
      | PPoll \<Rightarrow> pin_to_cpu (cpu d) @ [EvReadyInc]
      | PMain \<Rightarrow> pin_to_cpu (cpu d) @ [EvReadyInc, EvGoObserved] @ replicate k EvSpinInc
      | PDone \<Rightarrow> pin_to_cpu (cpu d) @ [EvReadyInc, EvGoObserved] @ replicate k EvSpinInc
                   @ [EvStopObserved]
      | PFailed \<Rightarrow> [])"

definition spins :: "event list \<Rightarrow> nat" where
  "spins l = length (filter (\<lambda>e. e = EvSpinInc) l)"

definition spinner_ok :: "spinner_data_t \<Rightarrow> spinner_t \<Rightarrow> bool" where
  "spinner_ok d t =
     (spc t \<noteq> PFailed \<and>
      slog t = spinner_log d (spc t) (spins (slog t)) \<and>
      sdata t = d\<lparr>spin_count := spin_count d + of_nat (spins (slog t))\<rparr>)"

section \<open>Example configurations\<close>

text \<open>
  A host with two nodes and one CPU on each; an operating system on which every \<open>mmap\<close>
  succeeds, one on which every \<open>mmap\<close> fails, and one on which the third fails.
\<close>

definition ex_topo :: numa_topology where
  "ex_topo =
     \<lparr>numa_available = True, configured_nodes = 2, configured_cpus = 2,
      node_to_cpus = (\<lambda>n. if 0 \<le> n \<and> n < 2 then Some (\<lambda>c. c = n) else None)\<rparr>"

definition ex_clock :: "nat \<Rightarrow> timespec" where
  "ex_clock k = \<lparr>tv_sec = 10 + 3 * int k, tv_nsec = 0\<rparr>"

definition ex_env :: os_env where
  "ex_env = \<lparr>mmap_result = (\<lambda>k. 4096), clock_result = ex_clock\<rparr>"

definition ex_env_fail :: os_env where
  "ex_env_fail = \<lparr>mmap_result = (\<lambda>k. MAP_FAILED), clock_result = ex_clock\<rparr>"

definition ex_env_fail3 :: os_env where
  "ex_env_fail3 =
     \<lparr>mmap_result = (\<lambda>k. if k = 2 then MAP_FAILED else 4096), clock_result = ex_clock\<rparr>"

definition ex_ok :: "nat \<Rightarrow> bool" where
  "ex_ok k = True"

definition ex_spinner :: spinner_data_t where
  "ex_spinner = \<lparr>id_s = 0, node_s = 1, cpu = 1, spin_count = 0\<rparr>"

definition ex_worker :: worker_data_t where
  "ex_worker = \<lparr>node = 0, region = 0, elapsed_sec = 0, ops = 0\<rparr>"

text \<open>Benchmark 3 or 4 on that host with one spinner per remote node.\<close>

definition ex_config :: "bench \<Rightarrow> int \<Rightarrow> op_type_t \<Rightarrow> os_env \<Rightarrow> config" where
  "ex_config b n opn E =
     \<lparr>bench = b, num_ops = n, operation = opn, topo = ex_topo, env = (\<lambda>i. E),
      num_nodes = 2, total_spinners = 1, expected_ready = 2\<rparr>"

definition ex_init :: gstate where
  "ex_init = init_state [ex_spinner] [ex_worker]"

text \<open>Benchmark 3 on that host when the argument of \<open>-s\<close> is \<open>-1\<close>.\<close>

definition ex_config_neg :: "os_env \<Rightarrow> config" where
  "ex_config_neg E =
     \<lparr>bench = Bench3, num_ops = 2, operation = OP_MPROTECT, topo = ex_topo, env = (\<lambda>i. E),
      num_nodes = 2, total_spinners = - 1, expected_ready = 0\<rparr>"

definition ex_init_neg :: gstate where
  "ex_init_neg = init_state [] [ex_worker]"

text \<open>
  A host with four nodes and one CPU on each, and a schedule that takes benchmark 1 or 2
  on it from the ready-wait to the report.
\<close>

definition ex_topo4 :: numa_topology where
  "ex_topo4 =
     \<lparr>numa_available = True, configured_nodes = 4, configured_cpus = 4,
      node_to_cpus = (\<lambda>n. if 0 \<le> n \<and> n < 4 then Some (\<lambda>c. c = n) else None)\<rparr>"

definition ex_envs :: "nat \<Rightarrow> os_env" where
  "ex_envs i = ex_env"

definition ex_config4 :: "bench \<Rightarrow> int \<Rightarrow> config" where
  "ex_config4 b n =
     \<lparr>bench = b, num_ops = n, operation = OP_MPROTECT, topo = ex_topo4, env = ex_envs,
      num_nodes = 4, total_spinners = 0, expected_ready = 0\<rparr>"

definition ex_init4 :: gstate where
  "ex_init4 =
     init_state []
       [\<lparr>node = 0, region = 0, elapsed_sec = 0, ops = 0\<rparr>,
        \<lparr>node = 1, region = 0, elapsed_sec = 0, ops = 0\<rparr>,
        \<lparr>node = 2, region = 0, elapsed_sec = 0, ops = 0\<rparr>,
        \<lparr>node = 3, region = 0, elapsed_sec = 0, ops = 0\<rparr>]"

definition ex_sched4 :: "actor list" where
  "ex_sched4 =
     [Worker 0, Worker 0, Worker 1, Worker 1, Worker 2, Worker 2, Worker 3, Worker 3,
      Driver, Driver,
      Worker 3, Worker 3, Worker 2, Worker 2, Worker 1, Worker 1, Worker 0, Worker 0,
      Driver, Driver, Driver, Driver, Driver]"

definition ex_final4 :: "bench \<Rightarrow> int \<Rightarrow> gstate" where
  "ex_final4 b n = run (ex_config4 b n) ex_sched4 ex_init4"

text \<open>A schedule that takes those benchmarks from the ready-wait to the report.\<close>

definition ex_sched :: "actor list" where
  "ex_sched =
     [Spinner 0, Spinner 0, Worker 0, Worker 0, Driver, Driver, Spinner 0, Spinner 0,
      Worker 0, Worker 0, Driver, Driver, Spinner 0, Driver, Driver]"

definition ex_final :: "bench \<Rightarrow> int \<Rightarrow> op_type_t \<Rightarrow> os_env \<Rightarrow> gstate" where
  "ex_final b n opn E = run (ex_config b n opn E) ex_sched ex_init"

section \<open>Properties\<close>

subsection \<open>The protection-toggle loop\<close>

lemma mprotect_body_eq:
  "mprotect_body st =
     st\<lparr>wdata := (wdata st)\<lparr>ops := ops (wdata st) + 2\<rparr>,
        wlog := wlog st @ [EvMprotect (region (wdata st)) PROT_READ,
                           EvMprotect (region (wdata st)) PROT_READ_WRITE]\<rparr>"
  by (simp add: mprotect_body_def sys_mprotect_def Let_def)

lemma toggles_Suc:
  "toggles r (Suc k) = [EvMprotect r PROT_READ, EvMprotect r PROT_READ_WRITE] @ toggles r k"
  by (simp add: toggles_def)

lemma mprotect_loop_eq:
  "i \<le> n \<Longrightarrow>
   mprotect_loop n i st =
     st\<lparr>wdata := (wdata st)\<lparr>ops := ops (wdata st) + 2 * word_of_int (n - i)\<rparr>,
        wlog := wlog st @ toggles (region (wdata st)) (nat (n - i))\<rparr>"
proof (induction n i st rule: mprotect_loop.induct)
  case (1 n i st)
  show ?case
  proof (cases "i < n")
    case True
    then have k: "nat (n - i) = Suc (nat (n - (i + 1)))" by simp
    have w: "(2::64 word) + 2 * word_of_int (n - (i + 1)) = 2 * word_of_int (n - i)"
      by (simp add: algebra_simps)
    from True have "mprotect_loop n i st = mprotect_loop n (i + 1) (mprotect_body st)"
      by (subst mprotect_loop.simps) simp
    also have "\<dots> = (mprotect_body st)\<lparr>wdata := (wdata (mprotect_body st))\<lparr>ops := ops (wdata (mprotect_body st)) + 2 * word_of_int (n - (i + 1))\<rparr>,
        wlog := wlog (mprotect_body st) @ toggles (region (wdata (mprotect_body st))) (nat (n - (i + 1)))\<rparr>"
      using True by (intro "1.IH") simp_all
    also have "\<dots> = st\<lparr>wdata := (wdata st)\<lparr>ops := ops (wdata st) + 2 * word_of_int (n - i)\<rparr>,
        wlog := wlog st @ toggles (region (wdata st)) (nat (n - i))\<rparr>"
      unfolding k toggles_Suc by (simp add: mprotect_body_eq add.assoc w del: of_int_diff of_int_add)
    finally show ?thesis .
  next
    case False
    with "1.prems" have "i = n" by simp
    then show ?thesis by (subst mprotect_loop.simps) (simp add: toggles_def)
  qed
qed

lemma mprotect_loop_nonpos: "n \<le> 0 \<Longrightarrow> mprotect_loop n 0 st = st"
  by (subst mprotect_loop.simps) simp

lemma uint_twice:
  "0 \<le> n \<Longrightarrow> n \<le> 2147483647 \<Longrightarrow> uint (2 * word_of_int n :: 64 word) = 2 * n"
proof -
  assume a: "0 \<le> n" "n \<le> 2147483647"
  have h1: "(2 * word_of_int n :: 64 word) = word_of_int (2 * n)" by simp
  have h2: "uint (word_of_int (2 * n) :: 64 word) = 2 * n"
    using a by (simp add: uint_word_of_int take_bit_eq_mod del: of_int_mult)
  show ?thesis unfolding h1 by (rule h2)
qed

lemma worker_timed_eq:
  "0 \<le> n \<Longrightarrow>
   worker_timed E n st =
     st\<lparr>wdata := (wdata st)\<lparr>ops := ops (wdata st) + 2 * word_of_int n,
           elapsed_sec := elapsed (clock_result E (clock_calls st))
                                  (clock_result E (Suc (clock_calls st)))\<rparr>,
        clock_calls := Suc (Suc (clock_calls st)),
        tstart := clock_result E (clock_calls st),
        tend := clock_result E (Suc (clock_calls st)),
        wlog := wlog st @ [EvClock] @ toggles (region (wdata st)) (nat n)
                  @ [EvClock, EvMunmap (region (wdata st))]\<rparr>"
  by (simp add: worker_timed_def Let_def mprotect_loop_eq clock_start_def clock_end_def
      set_elapsed_def sys_munmap_def)

lemma do_mprotect_workload_ok:
  "0 \<le> n \<Longrightarrow> mmap_result E (mmap_calls st) \<noteq> MAP_FAILED \<Longrightarrow>
   do_mprotect_workload E n st =
     st\<lparr>wdata := (wdata st)\<lparr>region := mmap_result E (mmap_calls st),
           ops := ops (wdata st) + 2 * word_of_int n,
           elapsed_sec := elapsed (clock_result E (clock_calls st))
                                  (clock_result E (Suc (clock_calls st)))\<rparr>,
        mmap_calls := Suc (mmap_calls st),
        clock_calls := Suc (Suc (clock_calls st)),
        tstart := clock_result E (clock_calls st),
        tend := clock_result E (Suc (clock_calls st)),
        wlog := wlog st @ [EvMmap NULL (mmap_result E (mmap_calls st)),
                           EvMemset (mmap_result E (mmap_calls st)), EvClock]
                  @ toggles (mmap_result E (mmap_calls st)) (nat n)
                  @ [EvClock, EvMunmap (mmap_result E (mmap_calls st))]\<rparr>"
  by (simp add: do_mprotect_workload_def Let_def mprotect_loop_eq clock_start_def clock_end_def
      set_elapsed_def sys_munmap_def sys_mmap_def sys_memset_def)


subsection \<open>Runs\<close>

lemma run_Nil [simp]: "run C [] g = g"
  by (simp add: run_def)

lemma run_snoc: "run C (sched @ [a]) g = step C a (run C sched g)"
  by (simp add: run_def)

lemma run_append: "run C (s1 @ s2) g = run C s2 (run C s1 g)"
  by (simp add: run_def)

lemma run_invariant:
  assumes "P g" and "\<And>a h. P h \<Longrightarrow> P (step C a h)"
  shows "P (run C sched g)"
  using assms by (induction sched rule: rev_induct) (simp_all add: run_snoc)

subsection \<open>Program counters\<close>

lemma spinner_step_pc:
  "spc (spinner_step g s t) =
     (case spc t of PStart \<Rightarrow> PReady | PReady \<Rightarrow> PPoll
      | PPoll \<Rightarrow> if g \<noteq> 0 then PMain else PPoll
      | PMain \<Rightarrow> if s \<noteq> 0 then PDone else PMain
      | PDone \<Rightarrow> PDone | PFailed \<Rightarrow> PFailed)"
  by (simp add: spinner_step_def split: pc.splits)

lemma worker_step_pc:
  "wpc (worker_step C E g t) =
     (case wpc t of
        PStart \<Rightarrow> if bench C \<noteq> Bench4
                     \<and> region (wdata (worker_setup (bench C) (topo C) E (wst t))) = MAP_FAILED
                   then PFailed else PReady
      | PReady \<Rightarrow> PPoll
      | PPoll \<Rightarrow> if g \<noteq> 0 then PMain else PPoll
      | PMain \<Rightarrow> PDone
      | PDone \<Rightarrow> PDone | PFailed \<Rightarrow> PFailed)"
  by (simp add: worker_step_def Let_def split: pc.splits)

lemma step_go: "go (step C a g) = (if a = Driver \<and> dpc g = DArm then 1 else go g)"
  by (auto simp: step_def driver_step_def finish12_def finish34_def Let_def
      split: actor.splits dpc.splits list.splits)

lemma step_ready_mono: "ready_count g \<le> ready_count (step C a g)"
  by (auto simp: step_def driver_step_def finish12_def finish34_def Let_def
      split: actor.splits dpc.splits list.splits)

lemma driver_step_threads:
  "spinners (driver_step C g) = spinners g" "workers (driver_step C g) = workers g"
  by (auto simp: driver_step_def finish12_def finish34_def Let_def
      split: dpc.splits list.splits)

lemma step_lengths:
  "length (spinners (step C a g)) = length (spinners g)"
  "length (workers (step C a g)) = length (workers g)"
  by (auto simp: step_def driver_step_threads split: actor.splits)

lemma thread_step_dpc:
  "dpc (step C (Spinner i) g) = dpc g" "dpc (step C (Worker i) g) = dpc g"
  by (auto simp: step_def)

lemma barrier_inv_init: "barrier_inv C (init_state sds wds)"
  by (simp add: barrier_inv_def init_state_def new_spinner_def new_worker_def started_pc_def)

lemma barrier_inv_step:
  assumes "barrier_inv C g"
  shows "barrier_inv C (step C a g)"
proof (cases a)
  case Driver
  with assms show ?thesis
    by (auto simp: barrier_inv_def step_def driver_step_def finish12_def finish34_def Let_def
        split: dpc.splits list.splits)
next
  case (Spinner i)
  with assms show ?thesis
    by (auto simp: barrier_inv_def step_def nth_list_update spinner_step_pc started_pc_def
        split: pc.splits if_splits)
next
  case (Worker i)
  with assms show ?thesis
    by (auto simp: barrier_inv_def step_def nth_list_update worker_step_pc started_pc_def
        split: pc.splits if_splits)
qed

lemma barrier_inv_run: "barrier_inv C (run C sched (init_state sds wds))"
  by (rule run_invariant) (simp_all add: barrier_inv_init barrier_inv_step)

subsection \<open>The states of a worker\<close>

lemma worker_step_go: "g \<noteq> 0 \<Longrightarrow> worker_step C E g t = worker_step C E 1 t"
  by (simp add: worker_step_def split: pc.splits)

lemma worker_step_wait: "wpc t = PPoll \<Longrightarrow> worker_step C E 0 t = t"
  by (simp add: worker_step_def)

lemma worker_step_nopoll: "wpc t \<noteq> PPoll \<Longrightarrow> worker_step C E g t = worker_step C E 1 t"
  by (simp add: worker_step_def split: pc.splits)

lemma worker_step_terminated: "terminated (wpc t) \<Longrightarrow> worker_step C E g t = t"
  by (auto simp: worker_step_def terminated_def)

lemma worker_step_pc_go:
  "wpc t = PReady \<Longrightarrow> wpc (worker_step C E 1 t) = PPoll"
  "wpc t = PPoll \<Longrightarrow> wpc (worker_step C E 1 t) = PMain"
  "wpc t = PMain \<Longrightarrow> wpc (worker_step C E 1 t) = PDone"
  "wpc t = PDone \<Longrightarrow> wpc (worker_step C E 1 t) = PDone"
  "wpc t = PFailed \<Longrightarrow> wpc (worker_step C E 1 t) = PFailed"
  "wpc t = PStart \<Longrightarrow> wpc (worker_step C E 1 t) = PReady \<or> wpc (worker_step C E 1 t) = PFailed"
  by (simp_all add: worker_step_pc)

lemma worker_traj_pcs:
  "map wpc (worker_traj C E d) = [PStart, PReady, PPoll, PMain, PDone] \<or>
   map wpc (worker_traj C E d) = [PStart, PFailed, PFailed, PFailed, PFailed]"
proof -
  define w1 where "w1 = worker_step C E 1 (new_worker d)"
  define w2 where "w2 = worker_step C E 1 w1"
  define w3 where "w3 = worker_step C E 1 w2"
  define w4 where "w4 = worker_step C E 1 w3"
  have t: "worker_traj C E d = [new_worker d, w1, w2, w3, w4]"
    by (simp add: worker_traj_def Let_def w1_def w2_def w3_def w4_def)
  have p0: "wpc (new_worker d) = PStart" by (simp add: new_worker_def)
  from worker_step_pc_go(6) [OF p0, of C E]
  have "wpc w1 = PReady \<or> wpc w1 = PFailed" by (simp add: w1_def)
  then show ?thesis
  proof
    assume a: "wpc w1 = PReady"
    then have b: "wpc w2 = PPoll" by (simp add: w2_def worker_step_pc_go)
    then have c: "wpc w3 = PMain" by (simp add: w3_def worker_step_pc_go)
    then have "wpc w4 = PDone" by (simp add: w4_def worker_step_pc_go)
    with a b c p0 show ?thesis by (simp add: t)
  next
    assume a: "wpc w1 = PFailed"
    then have b: "wpc w2 = PFailed" by (simp add: w2_def worker_step_pc_go)
    then have c: "wpc w3 = PFailed" by (simp add: w3_def worker_step_pc_go)
    then have "wpc w4 = PFailed" by (simp add: w4_def worker_step_pc_go)
    with a b c p0 show ?thesis by (simp add: t)
  qed
qed

lemma worker_traj_length: "length (worker_traj C E d) = 5"
  by (simp add: worker_traj_def Let_def)

lemma worker_traj_last:
  "terminated (wpc (worker_traj C E d ! 4))"
proof -
  have "wpc (worker_traj C E d ! 4) = map wpc (worker_traj C E d) ! 4"
    by (simp add: worker_traj_length)
  with worker_traj_pcs [of C E d] show ?thesis
    by (auto simp: terminated_def)
qed



lemma worker_traj_closed:
  assumes "t \<in> set (worker_traj C E d)"
  shows "worker_step C E g t \<in> set (worker_traj C E d)"
proof (cases "wpc t = PPoll \<and> g = 0")
  case True
  then show ?thesis using assms by (simp add: worker_step_wait)
next
  case False
  then have e: "worker_step C E g t = worker_step C E 1 t"
    by (cases "g = 0") (auto intro: worker_step_nopoll worker_step_go)
  define w1 where "w1 = worker_step C E 1 (new_worker d)"
  define w2 where "w2 = worker_step C E 1 w1"
  define w3 where "w3 = worker_step C E 1 w2"
  define w4 where "w4 = worker_step C E 1 w3"
  have t: "worker_traj C E d = [new_worker d, w1, w2, w3, w4]"
    by (simp add: worker_traj_def Let_def w1_def w2_def w3_def w4_def)
  have "terminated (wpc w4)" using worker_traj_last [of C E d] by (simp add: t)
  then have l: "worker_step C E 1 w4 = w4" by (rule worker_step_terminated)
  from assms consider "t = new_worker d" | "t = w1" | "t = w2" | "t = w3" | "t = w4"
    unfolding t by auto
  then have "worker_step C E 1 t \<in> {w1, w2, w3, w4}"
  proof cases
    case 1
    then have "worker_step C E 1 t = w1" by (simp only: w1_def)
    then show ?thesis by simp
  next
    case 2
    then have "worker_step C E 1 t = w2" by (simp only: w2_def)
    then show ?thesis by simp
  next
    case 3
    then have "worker_step C E 1 t = w3" by (simp only: w3_def)
    then show ?thesis by simp
  next
    case 4
    then have "worker_step C E 1 t = w4" by (simp only: w4_def)
    then show ?thesis by simp
  next
    case 5
    then have "worker_step C E 1 t = w4" by (simp only: l)
    then show ?thesis by simp
  qed
  then show ?thesis unfolding e t by auto
qed




lemma traj_inv_init: "traj_inv C wds (init_state sds wds)"
  by (simp add: traj_inv_def init_state_def worker_traj_def Let_def)

lemma traj_inv_step:
  assumes "traj_inv C wds g"
  shows "traj_inv C wds (step C a g)"
proof (cases a)
  case Driver
  with assms show ?thesis by (simp add: traj_inv_def step_def driver_step_threads)
next
  case (Spinner i)
  with assms show ?thesis by (simp add: traj_inv_def step_def)
next
  case (Worker i)
  show ?thesis
  proof (cases "i < length (workers g)")
    case False
    with assms Worker show ?thesis by (simp add: step_def)
  next
    case True
    have w: "workers (step C a g) = (workers g)[i := worker_step C (env C i) (go g) (workers g ! i)]"
      using True Worker by (simp add: step_def)
    from assms have len: "length (workers g) = length wds"
      and mem: "\<And>j. j < length wds \<Longrightarrow> workers g ! j \<in> set (worker_traj C (env C j) (wds ! j))"
      by (simp_all add: traj_inv_def)
    have "workers (step C a g) ! j \<in> set (worker_traj C (env C j) (wds ! j))"
      if j: "j < length wds" for j
    proof (cases "j = i")
      case True
      then have "workers (step C a g) ! j = worker_step C (env C j) (go g) (workers g ! j)"
        using j len by (simp add: w)
      then show ?thesis using mem [OF j] by (simp only: worker_traj_closed)
    next
      case False
      then have "workers (step C a g) ! j = workers g ! j" by (simp add: w)
      then show ?thesis using mem [OF j] by simp
    qed
    then show ?thesis using len by (simp add: traj_inv_def step_lengths)
  qed
qed

lemma traj_inv_run: "traj_inv C wds (run C sched (init_state sds wds))"
  by (rule run_invariant) (simp_all add: traj_inv_init traj_inv_step)

lemma worker_setup_region:
  "region (wdata (worker_setup b T E st)) = mmap_result E (mmap_calls st)"
  by (simp add: worker_setup_def Let_def sys_mmap_def sys_perror_def sys_memset_def log_events_def)

lemma ws_start_A:
  "bench C \<noteq> Bench4 \<Longrightarrow>
   worker_step C E g \<lparr>wpc = PStart, wst = st\<rparr> =
     \<lparr>wpc = (if mmap_result E (mmap_calls st) = MAP_FAILED then PFailed else PReady),
      wst = worker_setup (bench C) (topo C) E st\<rparr>"
  by (simp add: worker_step_def worker_setup_region Let_def)

lemma ws_start_B:
  "bench C = Bench4 \<Longrightarrow>
   worker_step C E g \<lparr>wpc = PStart, wst = st\<rparr> =
     \<lparr>wpc = PReady, wst = log_events (pin_to_node_first_cpu (topo C) WORKER_NODE) st\<rparr>"
  by (simp add: worker_step_def)

lemma ws_ready:
  "worker_step C E g \<lparr>wpc = PReady, wst = st\<rparr> = \<lparr>wpc = PPoll, wst = log_events [EvReadyInc] st\<rparr>"
  by (simp add: worker_step_def)

lemma ws_poll:
  "worker_step C E 1 \<lparr>wpc = PPoll, wst = st\<rparr> = \<lparr>wpc = PMain, wst = log_events [EvGoObserved] st\<rparr>"
  by (simp add: worker_step_def)

lemma ws_main_A:
  "bench C \<noteq> Bench4 \<Longrightarrow>
   worker_step C E g \<lparr>wpc = PMain, wst = st\<rparr> = \<lparr>wpc = PDone, wst = worker_timed E (num_ops C) st\<rparr>"
  by (simp add: worker_step_def)

lemma ws_main_B:
  "bench C = Bench4 \<Longrightarrow>
   worker_step C E g \<lparr>wpc = PMain, wst = st\<rparr> =
     \<lparr>wpc = PDone, wst = run_workload (operation C) E (num_ops C) st\<rparr>"
  by (simp add: worker_step_def)

lemma ws_failed:
  "worker_step C E g \<lparr>wpc = PFailed, wst = st\<rparr> = \<lparr>wpc = PFailed, wst = st\<rparr>"
  by (simp add: worker_step_def)

lemma new_worker_calls:
  "mmap_calls (wst (new_worker d)) = 0" "clock_calls (wst (new_worker d)) = 0"
  "wdata (wst (new_worker d)) = d" "wlog (wst (new_worker d)) = []"
  by (simp_all add: new_worker_def)

lemma new_worker_eq: "new_worker d = \<lparr>wpc = PStart, wst = wst (new_worker d)\<rparr>"
  by (simp add: new_worker_def)

lemma worker_traj_A_ok:
  assumes "bench C \<noteq> Bench4" "mmap_result E 0 \<noteq> MAP_FAILED"
  shows "worker_traj C E d =
     (let s0 = wst (new_worker d);
          s1 = worker_setup (bench C) (topo C) E s0;
          s2 = log_events [EvReadyInc] s1;
          s3 = log_events [EvGoObserved] s2;
          s4 = worker_timed E (num_ops C) s3
      in [\<lparr>wpc = PStart, wst = s0\<rparr>, \<lparr>wpc = PReady, wst = s1\<rparr>, \<lparr>wpc = PPoll, wst = s2\<rparr>,
          \<lparr>wpc = PMain, wst = s3\<rparr>, \<lparr>wpc = PDone, wst = s4\<rparr>])"
  unfolding worker_traj_def Let_def
  apply (subst (1 2 3 4 5) new_worker_eq)
  apply (simp add: ws_start_A [OF assms(1)] ws_ready ws_poll ws_main_A [OF assms(1)]
      new_worker_calls assms(2))
  done

lemma worker_traj_A_fail:
  assumes "bench C \<noteq> Bench4" "mmap_result E 0 = MAP_FAILED"
  shows "worker_traj C E d =
     (let s0 = wst (new_worker d);
          s1 = worker_setup (bench C) (topo C) E s0
      in [\<lparr>wpc = PStart, wst = s0\<rparr>, \<lparr>wpc = PFailed, wst = s1\<rparr>, \<lparr>wpc = PFailed, wst = s1\<rparr>,
          \<lparr>wpc = PFailed, wst = s1\<rparr>, \<lparr>wpc = PFailed, wst = s1\<rparr>])"
  unfolding worker_traj_def Let_def
  apply (subst (1 2 3 4 5) new_worker_eq)
  apply (simp add: ws_start_A [OF assms(1)] ws_failed new_worker_calls assms(2))
  done

lemma worker_traj_B:
  assumes "bench C = Bench4"
  shows "worker_traj C E d =
     (let s0 = wst (new_worker d);
          s1 = log_events (pin_to_node_first_cpu (topo C) WORKER_NODE) s0;
          s2 = log_events [EvReadyInc] s1;
          s3 = log_events [EvGoObserved] s2;
          s4 = run_workload (operation C) E (num_ops C) s3
      in [\<lparr>wpc = PStart, wst = s0\<rparr>, \<lparr>wpc = PReady, wst = s1\<rparr>, \<lparr>wpc = PPoll, wst = s2\<rparr>,
          \<lparr>wpc = PMain, wst = s3\<rparr>, \<lparr>wpc = PDone, wst = s4\<rparr>])"
  unfolding worker_traj_def Let_def
  apply (subst (1 2 3 4 5) new_worker_eq)
  apply (simp add: ws_start_B [OF assms] ws_ready ws_poll ws_main_B [OF assms])
  done

subsection \<open>The ready counter counts the participants that are ready\<close>


lemma sum_list_indicator_le:
  "(\<Sum>x\<leftarrow>xs. if P x then 1 else (0::int)) \<le> int (length xs)"
  by (induction xs) auto

lemma sum_list_indicator_lt:
  "i < length xs \<Longrightarrow> \<not> P (xs ! i) \<Longrightarrow> (\<Sum>x\<leftarrow>xs. if P x then 1 else (0::int)) < int (length xs)"
proof (induction xs arbitrary: i)
  case Nil
  then show ?case by simp
next
  case (Cons x xs)
  show ?case
  proof (cases i)
    case 0
    with Cons.prems sum_list_indicator_le [of P xs] show ?thesis by simp
  next
    case (Suc j)
    with Cons.prems Cons.IH [of j] show ?thesis by simp
  qed
qed

lemma sum_list_indicator_all:
  "(\<Sum>x\<leftarrow>xs. if P x then 1 else (0::int)) = int (length xs) \<Longrightarrow> i < length xs \<Longrightarrow> P (xs ! i)"
  using sum_list_indicator_lt [of i xs P] by auto








lemma run_lengths:
  "length (spinners (run C sched g)) = length (spinners g)"
  "length (workers (run C sched g)) = length (workers g)"
  by (induction sched rule: rev_induct) (simp_all add: run_snoc step_lengths)

lemma nready_le: "nready g \<le> int (length (spinners g)) + int (length (workers g))"
  unfolding nready_def
  using sum_list_indicator_le [of "\<lambda>t. ready_pc (spc t)" "spinners g"]
    sum_list_indicator_le [of "\<lambda>t. ready_pc (wpc t)" "workers g"]
  by simp



lemma nready_all_spinners:
  assumes "int (length (spinners g)) + int (length (workers g)) \<le> nready g"
    and "i < length (spinners g)"
  shows "ready_pc (spc (spinners g ! i))"
proof (rule ccontr)
  assume "\<not> ready_pc (spc (spinners g ! i))"
  then have "(\<Sum>t\<leftarrow>spinners g. if ready_pc (spc t) then 1 else (0::int)) < int (length (spinners g))"
    using assms(2) sum_list_indicator_lt [of i "spinners g" "\<lambda>t. ready_pc (spc t)"] by simp
  with sum_list_indicator_le [of "\<lambda>t. ready_pc (wpc t)" "workers g"] assms(1)
  show False by (simp add: nready_def)
qed

lemmas eval_core =
  run_def step_def init_state_def new_spinner_def new_worker_def spinner_step_def worker_step_def
  driver_step_def ready_target_def is12_def worker_setup_def log_events_def
  pin_to_node_first_cpu_def pin_to_node_def pin_to_cpu_def get_cpu_for_node_def cpu_scan.simps
  first_cpu.simps WORKER_NODE_def sys_mmap_def sys_memset_def sys_perror_def sys_munmap_def
  sys_mprotect_def sys_touch_at_def MAP_FAILED_def NULL_def Let_def
  clock_start_def clock_end_def set_elapsed_def terminated_def finish12_def finish34_def
  report34_def join_acc_def started_pc_def ready_pc_def
  ex_topo_def ex_env_def ex_env_fail_def ex_env_fail3_def ex_clock_def ex_spinner_def
  ex_worker_def ex_config_def ex_init_def ex_sched_def ex_ok_def ex_config_neg_def
  ex_init_neg_def ex_final_def ex_topo4_def ex_envs_def ex_config4_def ex_init4_def
  ex_sched4_def ex_final4_def

lemmas eval_defs =
  eval_core worker_timed_def mprotect_loop.simps mprotect_body_def
  munmap_loop.simps mmap_full_loop.simps run_workload_def do_mprotect_workload_def
  do_munmap_workload_def do_mmap_full_workload_def

lemmas setup_defs =
  main34_def main12_def main_setup_def int_ok_def node_loop.simps spinner_loop.simps
  create_workers.simps create_worker_def

lemma main12_init:
  assumes "main12 b n T ok Es = Inr (C, g0)"
  shows "\<exists>wds. g0 = init_state [] wds \<and> create_workers ok (configured_nodes T) 0 [] = Inr wds
           \<and> C = \<lparr>bench = b, num_ops = n, operation = OP_MPROTECT, topo = T, env = Es,
                  num_nodes = configured_nodes T, total_spinners = 0, expected_ready = 0\<rparr>"
  using assms by (auto simp: main12_def split: if_splits sum.splits)

lemma main34_init:
  assumes "main34 b n opn T ok E S = Inr (C, g0)"
  shows "\<exists>sds nspin nready.
           main_setup T ok S = Inr (sds, nspin, nready) \<and>
           g0 = init_state sds [\<lparr>node = 0, region = 0, elapsed_sec = 0, ops = 0\<rparr>] \<and>
           C = \<lparr>bench = b, num_ops = n, operation = opn, topo = T, env = (\<lambda>i. E),
                num_nodes = configured_nodes T, total_spinners = nspin, expected_ready = nready\<rparr>"
  using assms by (auto simp: main34_def split: sum.splits prod.splits)

lemma main_init_state:
  assumes "main12 b n T ok Es = Inr (C, g0) \<or> main34 b' n' opn T' ok' E S = Inr (C, g0)"
  shows "\<exists>sds wds. g0 = init_state sds wds"
  using assms main12_init [of b n T ok Es C g0] main34_init [of b' n' opn T' ok' E S C g0]
  by blast

lemma spinner_poll_waits:
  "i < length (spinners g) \<Longrightarrow> spc (spinners g ! i) = PPoll \<Longrightarrow> go g = 0 \<Longrightarrow>
   step C (Spinner i) g = g"
  by (simp add: step_def spinner_step_def)

lemma worker_poll_waits:
  "i < length (workers g) \<Longrightarrow> wpc (workers g ! i) = PPoll \<Longrightarrow> go g = 0 \<Longrightarrow>
   step C (Worker i) g = g"
  by (simp add: step_def worker_step_def)

lemma driver_waits:
  "dpc g = DWait \<Longrightarrow> ready_count g < ready_target C \<Longrightarrow> step C Driver g = g"
  by (simp add: step_def driver_step_def)

text \<open>
  C3.  In every run of each of the four benchmarks: \<open>go\<close> is set only when the ready
  counter has reached the driver's expected count; a participant (spinner or worker)
  that is in or past its main loop has seen \<open>go\<close> set, so the ready counter has reached
  that count; a participant polling \<open>go\<close> stays where it is while \<open>go\<close> is 0; and the
  driver stays in its ready-wait while the counter is below the count.
\<close>

theorem barrier_no_early_start:
  assumes "main12 b n T ok Es = Inr (C, g0) \<or> main34 b' n' opn T' ok' E S = Inr (C, g0)"
    and "g = run C sched g0"
  shows "(go g \<noteq> 0 \<longrightarrow> ready_target C \<le> ready_count g) \<and>
         (\<forall>i<length (spinners g). started_pc (spc (spinners g ! i)) \<longrightarrow>
            go g \<noteq> 0 \<and> ready_target C \<le> ready_count g) \<and>
         (\<forall>i<length (workers g). started_pc (wpc (workers g ! i)) \<longrightarrow>
            go g \<noteq> 0 \<and> ready_target C \<le> ready_count g) \<and>
         (\<forall>i<length (spinners g). spc (spinners g ! i) = PPoll \<and> go g = 0 \<longrightarrow>
            step C (Spinner i) g = g) \<and>
         (\<forall>i<length (workers g). wpc (workers g ! i) = PPoll \<and> go g = 0 \<longrightarrow>
            step C (Worker i) g = g) \<and>
         (dpc g = DWait \<and> ready_count g < ready_target C \<longrightarrow> step C Driver g = g)"
proof -
  from main_init_state [OF assms(1)] obtain sds wds where g0: "g0 = init_state sds wds"
    by blast
  have inv: "barrier_inv C g" unfolding assms(2) g0 by (rule barrier_inv_run)
  then have a: "go g \<noteq> 0 \<longrightarrow> ready_target C \<le> ready_count g"
    by (auto simp: barrier_inv_def)
  from inv have b: "\<forall>i<length (spinners g). started_pc (spc (spinners g ! i)) \<longrightarrow> go g \<noteq> 0"
    and c: "\<forall>i<length (workers g). started_pc (wpc (workers g ! i)) \<longrightarrow> go g \<noteq> 0"
    by (simp_all add: barrier_inv_def)
  from a b c show ?thesis
    by (simp add: spinner_poll_waits worker_poll_waits driver_waits)
qed

theorem barrier_no_early_start_witness:
  "main34 Bench3 2 OP_MPROTECT ex_topo ex_ok ex_env 1
     = Inr (ex_config Bench3 2 OP_MPROTECT ex_env, ex_init) \<and>
   started_pc (wpc (workers (run (ex_config Bench3 2 OP_MPROTECT ex_env) (take 9 ex_sched) ex_init) ! 0)) \<and>
   started_pc (spc (spinners (run (ex_config Bench3 2 OP_MPROTECT ex_env) (take 9 ex_sched) ex_init) ! 0)) \<and>
   go (run (ex_config Bench3 2 OP_MPROTECT ex_env) (take 9 ex_sched) ex_init) \<noteq> 0 \<and>
   ready_target (ex_config Bench3 2 OP_MPROTECT ex_env)
     \<le> ready_count (run (ex_config Bench3 2 OP_MPROTECT ex_env) (take 9 ex_sched) ex_init) \<and>
   step (ex_config Bench3 2 OP_MPROTECT ex_env) (Worker 0)
     (run (ex_config Bench3 2 OP_MPROTECT ex_env) (take 4 ex_sched) ex_init)
     = run (ex_config Bench3 2 OP_MPROTECT ex_env) (take 4 ex_sched) ex_init"
proof -
  have m: "main34 Bench3 2 OP_MPROTECT ex_topo ex_ok ex_env 1
     = Inr (ex_config Bench3 2 OP_MPROTECT ex_env, ex_init)"
    by (simp add: setup_defs eval_defs)
  have s: "started_pc (wpc (workers (run (ex_config Bench3 2 OP_MPROTECT ex_env) (take 9 ex_sched) ex_init) ! 0))"
    "started_pc (spc (spinners (run (ex_config Bench3 2 OP_MPROTECT ex_env) (take 9 ex_sched) ex_init) ! 0))"
    by (simp_all add: eval_defs)
  have p: "wpc (workers (run (ex_config Bench3 2 OP_MPROTECT ex_env) (take 4 ex_sched) ex_init) ! 0) = PPoll"
    "go (run (ex_config Bench3 2 OP_MPROTECT ex_env) (take 4 ex_sched) ex_init) = 0"
    "length (workers (run (ex_config Bench3 2 OP_MPROTECT ex_env) (take 4 ex_sched) ex_init)) = 1"
    "length (workers (run (ex_config Bench3 2 OP_MPROTECT ex_env) (take 9 ex_sched) ex_init)) = 1"
    "length (spinners (run (ex_config Bench3 2 OP_MPROTECT ex_env) (take 9 ex_sched) ex_init)) = 1"
    by (simp_all add: eval_defs)
  from barrier_no_early_start [OF disjI2 [OF m] refl, of "take 9 ex_sched"]
    barrier_no_early_start [OF disjI2 [OF m] refl, of "take 4 ex_sched"]
  show ?thesis using m s p by simp
qed

subsection \<open>Thread creation\<close>

lemma create_workers_length:
  "create_workers ok M i acc = Inr wds \<Longrightarrow> length wds = length acc + nat (M - i)"
proof (induction ok M i acc rule: create_workers.induct)
  case (1 ok M i acc)
  show ?case
  proof (cases "i < M")
    case True
    with "1.prems" have k: "ok (length acc)"
      and r: "create_workers ok M (i + 1) (acc @ [\<lparr>node = i, region = 0, elapsed_sec = 0, ops = 0\<rparr>]) = Inr wds"
      by (auto simp: create_workers.simps [of ok M i acc] split: if_splits)
    from True k have "length wds = length (acc @ [\<lparr>node = i, region = 0, elapsed_sec = 0, ops = 0\<rparr>]) + nat (M - (i + 1))"
      by (intro "1.IH" r) simp_all
    with True show ?thesis by simp
  next
    case False
    with "1.prems" show ?thesis by (simp add: create_workers.simps [of ok M i acc])
  qed
qed

lemma create_workers_zero:
  "create_workers ok M i acc = Inr wds \<Longrightarrow>
   \<forall>d\<in>set acc. ops d = 0 \<and> elapsed_sec d = 0 \<Longrightarrow>
   \<forall>d\<in>set wds. ops d = 0 \<and> elapsed_sec d = 0"
proof (induction ok M i acc rule: create_workers.induct)
  case (1 ok M i acc)
  show ?case
  proof (cases "i < M")
    case True
    with "1.prems" have k: "ok (length acc)"
      and r: "create_workers ok M (i + 1) (acc @ [\<lparr>node = i, region = 0, elapsed_sec = 0, ops = 0\<rparr>]) = Inr wds"
      by (auto simp: create_workers.simps [of ok M i acc] split: if_splits)
    from True k "1.prems"(2) show ?thesis
      by (intro "1.IH" r) auto
  next
    case False
    with "1.prems" show ?thesis by (simp add: create_workers.simps [of ok M i acc])
  qed
qed

lemma create_workers_returns:
  "(\<And>k. ok k) \<Longrightarrow> \<exists>wds. create_workers ok M i acc = Inr wds"
proof (induction ok M i acc rule: create_workers.induct)
  case (1 ok M i acc)
  show ?case
  proof (cases "i < M")
    case True
    have k: "\<not> \<not> ok (length acc)" by (simp add: "1.prems")
    from "1.IH" [OF True k "1.prems"] True k show ?thesis
      by (subst create_workers.simps) simp
  next
    case False
    then show ?thesis by (subst create_workers.simps) simp
  qed
qed


lemma spinner_loop_returns:
  "(\<And>k. ok k) \<Longrightarrow> \<exists>r. spinner_loop T ok S nd s acc = Inr r"
proof (induction T ok S nd s acc rule: spinner_loop.induct)
  case (1 T ok S nd s acc)
  show ?case
  proof (cases "s < S")
    case True
    have k: "\<not> \<not> ok (length acc)" by (simp add: "1.prems")
    show ?thesis
    proof (cases "get_cpu_for_node T nd s < 0")
      case neg: True
      from "1.IH"(1) [OF True refl neg "1.prems"] True neg show ?thesis
        by (subst spinner_loop.simps) (simp add: Let_def)
    next
      case pos: False
      from "1.IH"(2) [OF True refl pos k "1.prems"] True pos k show ?thesis
        by (subst spinner_loop.simps) (simp add: Let_def)
    qed
  next
    case False
    then show ?thesis by (subst spinner_loop.simps) simp
  qed
qed


lemma node_loop_returns:
  "(\<And>k. ok k) \<Longrightarrow> \<exists>r. node_loop T ok S M nd acc = Inr r"
proof (induction T ok S M nd acc rule: node_loop.induct)
  case (1 T ok S M nd acc)
  show ?case
  proof (cases "nd < M")
    case False
    then show ?thesis by (subst node_loop.simps) simp
  next
    case True
    show ?thesis
    proof (cases "nd = WORKER_NODE")
      case w: True
      from "1.IH"(1) [OF True w "1.prems"] True w show ?thesis
        by (subst node_loop.simps) simp
    next
      case nw: False
      from spinner_loop_returns [where ok = ok and T = T and S = S and nd = nd and s = 0
          and acc = acc, OF "1.prems"] obtain acc' where
        a: "spinner_loop T ok S nd 0 acc = Inr acc'" by blast
      from "1.IH"(2) [OF True nw a "1.prems"] True nw a show ?thesis
        by (subst node_loop.simps) simp
    qed
  qed
qed








lemma main_setup_returns:
  assumes "numa_available T" and "\<And>k. ok k"
    and "int_ok (configured_nodes T - 1)" "int_ok (S * (configured_nodes T - 1))"
    and "int_ok (S * (configured_nodes T - 1) + 1)"
  shows "\<exists>r. main_setup T ok S = Inr r"
proof -
  from node_loop_returns [where ok = ok and T = T and S = S and M = "configured_nodes T"
      and nd = 0 and acc = "[]", OF assms(2)]
  obtain r where "node_loop T ok S (configured_nodes T) 0 [] = Inr r" by blast
  with assms show ?thesis
    by (simp add: main_setup_def Let_def create_worker_def)
qed

lemma init_state_threads:
  "spinners (init_state sds wds) = map new_spinner sds"
  "workers (init_state sds wds) = map new_worker wds"
  by (simp_all add: init_state_def)








lemma worker_setup_eq:
  "worker_setup b T E st =
     st\<lparr>wdata := (wdata st)\<lparr>region := mmap_result E (mmap_calls st)\<rparr>,
        mmap_calls := Suc (mmap_calls st),
        wlog := wlog st
          @ (if b = Bench3 then pin_to_node_first_cpu T WORKER_NODE
             else pin_to_node T (node (wdata st)))
          @ [EvMmap NULL (mmap_result E (mmap_calls st)),
             if mmap_result E (mmap_calls st) = MAP_FAILED then EvPerror
             else EvMemset (mmap_result E (mmap_calls st))]\<rparr>"
  by (simp add: worker_setup_def Let_def sys_mmap_def sys_perror_def sys_memset_def log_events_def)

lemma pin_events_setaffinity:
  "e \<in> set (pin_to_node_first_cpu T nd) \<Longrightarrow> \<exists>cs. e = EvSetAffinity cs"
  "e \<in> set (pin_to_node T nd) \<Longrightarrow> \<exists>cs. e = EvSetAffinity cs"
  by (auto simp: pin_to_node_first_cpu_def pin_to_node_def pin_to_cpu_def Let_def
      split: if_splits option.splits)

lemma pin_no_ready:
  "EvReadyInc \<notin> set (pin_to_node_first_cpu T nd)" "EvReadyInc \<notin> set (pin_to_node T nd)"
  using pin_events_setaffinity [of EvReadyInc T nd] by auto

lemma failed_worker_states:
  assumes "bench C \<noteq> Bench4" "mmap_result E 0 = MAP_FAILED"
    and "t \<in> set (worker_traj C E d)"
  shows "(wpc t = PStart \<or> wpc t = PFailed) \<and> EvReadyInc \<notin> set (wlog (wst t)) \<and>
         ops (wdata (wst t)) = ops d \<and> elapsed_sec (wdata (wst t)) = elapsed_sec d"
  using assms(3) unfolding worker_traj_A_fail [OF assms(1,2)] Let_def
  by (auto simp: worker_setup_eq new_worker_def pin_no_ready assms(2) split: if_splits)





subsection \<open>The unmap/remap loop\<close>




lemma remap_successes_le: "remap_successes E c m \<le> m"
  by (induction m arbitrary: c) auto

lemma remap_successes_ok: "j < remap_successes E c m \<Longrightarrow> mmap_result E (c + j) \<noteq> MAP_FAILED"
proof (induction m arbitrary: c j)
  case 0
  then show ?case by simp
next
  case (Suc m)
  show ?case
  proof (cases j)
    case 0
    with Suc.prems show ?thesis by (auto split: if_splits)
  next
    case (Suc j')
    with Suc.prems Suc.IH [of j' "Suc c"] show ?thesis by (auto split: if_splits)
  qed
qed

lemma remap_successes_fail:
  "remap_successes E c m < m \<Longrightarrow> mmap_result E (c + remap_successes E c m) = MAP_FAILED"
proof (induction m arbitrary: c)
  case 0
  then show ?case by simp
next
  case (Suc m)
  show ?case
  proof (cases "mmap_result E c = MAP_FAILED")
    case True
    then show ?thesis by simp
  next
    case False
    with Suc.prems have "remap_successes E (Suc c) m < m" by simp
    from Suc.IH [OF this] False show ?thesis by simp
  qed
qed

lemma remap_successes_all:
  "(\<And>j. j < m \<Longrightarrow> mmap_result E (c + j) \<noteq> MAP_FAILED) \<Longrightarrow> remap_successes E c m = m"
  using remap_successes_fail [of E c m] remap_successes_le [of E c m]
  by (cases "remap_successes E c m < m") auto

lemma remap_successes_first:
  assumes "j < m" "mmap_result E (c + j) = MAP_FAILED"
    and "\<And>j'. j' < j \<Longrightarrow> mmap_result E (c + j') \<noteq> MAP_FAILED"
  shows "remap_successes E c m = j"
proof -
  let ?k = "remap_successes E c m"
  have "\<not> j < ?k" using remap_successes_ok [of j E c m] assms(2) by auto
  moreover have "\<not> ?k < j"
  proof
    assume a: "?k < j"
    with assms(1) have "?k < m" by simp
    from remap_successes_fail [OF this] assms(3) [OF a] show False by simp
  qed
  ultimately show ?thesis by simp
qed


subsection \<open>The driver of benchmarks 3 and 4\<close>

lemma drv34_inv_init: "wds \<noteq> [] \<Longrightarrow> drv34_inv (init_state sds wds)"
  by (simp add: drv34_inv_def init_state_def)

lemma step_worker_terminated:
  assumes "i < length (workers g)" "terminated (wpc (workers g ! i))"
  shows "step C (Worker i) g = g"
proof -
  have "wpc (workers g ! i) \<noteq> PReady" using assms(2) by (auto simp: terminated_def)
  then show ?thesis
    using assms by (simp add: step_def worker_step_terminated)
qed

lemma step_worker_frame:
  "go (step C (Worker i) g) = go g" "stop_spinners (step C (Worker i) g) = stop_spinners g"
  "report (step C (Worker i) g) = report g" "spinners (step C (Worker i) g) = spinners g"
  "total_ops (step C (Worker i) g) = total_ops g" "max_time (step C (Worker i) g) = max_time g"
  by (simp_all add: step_def)

lemma step_spinner_frame:
  "go (step C (Spinner i) g) = go g" "stop_spinners (step C (Spinner i) g) = stop_spinners g"
  "report (step C (Spinner i) g) = report g" "workers (step C (Spinner i) g) = workers g"
  "total_ops (step C (Spinner i) g) = total_ops g" "max_time (step C (Spinner i) g) = max_time g"
  by (simp_all add: step_def)

lemma drv34_inv_step:
  assumes "drv34_inv g" "\<not> is12 (bench C)"
  shows "drv34_inv (step C a g)"
proof (cases a)
  case Driver
  from assms obtain w ws where w: "workers g = w # ws" by (cases "workers g") (auto simp: drv34_inv_def)
  with assms Driver show ?thesis
    by (auto simp: drv34_inv_def step_def driver_step_def finish34_def split: dpc.splits)
next
  case (Spinner i)
  with assms show ?thesis
    by (simp add: drv34_inv_def step_spinner_frame thread_step_dpc)
next
  case (Worker i)
  show ?thesis
  proof (cases "i < length (workers g) \<and> terminated (wpc (workers g ! i))")
    case True
    with assms Worker show ?thesis by (simp add: step_worker_terminated)
  next
    case False
    have l: "workers (step C a g) \<noteq> []" using assms(1) step_lengths(2) [of C a g]
      by (auto simp: drv34_inv_def)
    have t: "terminated (wpc (workers (step C a g) ! 0))" if "terminated (wpc (workers g ! 0))"
    proof (cases "i = 0")
      case True
      with False that assms(1) show ?thesis by (auto simp: drv34_inv_def)
    next
      case False
      with that Worker show ?thesis by (simp add: step_def)
    qed
    have r: "workers (step C a g) ! 0 = workers g ! 0" if "terminated (wpc (workers g ! 0))"
    proof (cases "i = 0")
      case True
      with False that assms(1) show ?thesis by (auto simp: drv34_inv_def)
    next
      case False
      with that Worker show ?thesis by (simp add: step_def)
    qed
    from assms(1) l t r show ?thesis unfolding Worker
      by (auto simp: drv34_inv_def step_worker_frame thread_step_dpc)
  qed
qed

lemma drv34_inv_run:
  assumes "wds \<noteq> []" "\<not> is12 (bench C)"
  shows "drv34_inv (run C sched (init_state sds wds))"
  by (rule run_invariant) (simp_all add: drv34_inv_init drv34_inv_step assms)

lemma main34_bench:
  assumes "main34 b n opn T ok E S = Inr (C, g0)"
  shows "bench C = b" "num_ops C = n" "operation C = opn" "topo C = T" "env C i = E"
    "\<exists>sds. g0 = init_state sds [\<lparr>node = 0, region = 0, elapsed_sec = 0, ops = 0\<rparr>]"
  using main34_init [OF assms] by auto

lemma main12_bench:
  assumes "main12 b n T ok Es = Inr (C, g0)"
  shows "bench C = b" "num_ops C = n" "topo C = T" "env C = Es" "num_nodes C = configured_nodes T"
    "\<exists>wds. g0 = init_state [] wds \<and> length wds = nat (configured_nodes T) \<and>
        (\<forall>d\<in>set wds. ops d = 0 \<and> elapsed_sec d = 0)"
proof -
  from main12_init [OF assms] obtain wds where
    g0: "g0 = init_state [] wds"
    and cw: "create_workers ok (configured_nodes T) 0 [] = Inr wds"
    and c: "C = \<lparr>bench = b, num_ops = n, operation = OP_MPROTECT, topo = T, env = Es,
                  num_nodes = configured_nodes T, total_spinners = 0, expected_ready = 0\<rparr>"
    by blast
  from c show "bench C = b" "num_ops C = n" "topo C = T" "env C = Es"
    "num_nodes C = configured_nodes T" by simp_all
  from create_workers_length [OF cw] create_workers_zero [OF cw] g0
  show "\<exists>wds. g0 = init_state [] wds \<and> length wds = nat (configured_nodes T) \<and>
        (\<forall>d\<in>set wds. ops d = 0 \<and> elapsed_sec d = 0)"
    by auto
qed

subsection \<open>The record of a worker that has returned\<close>

lemma traj_done_is_last:
  assumes "t \<in> set [w0, w1, w2, w3, w4]" "wpc t = PDone"
    and "wpc w0 \<noteq> PDone" "wpc w1 \<noteq> PDone" "wpc w2 \<noteq> PDone" "wpc w3 \<noteq> PDone"
  shows "t = w4"
  using assms by auto

lemma done_A:
  assumes "bench C \<noteq> Bench4" "t \<in> set (worker_traj C E d)" "wpc t = PDone" "0 \<le> num_ops C"
  shows "mmap_result E 0 \<noteq> MAP_FAILED"
    and "wdata (wst t) = d\<lparr>region := mmap_result E 0,
                            ops := ops d + 2 * word_of_int (num_ops C),
                            elapsed_sec := elapsed (clock_result E 0) (clock_result E 1)\<rparr>"
    and "wlog (wst t) = pin_events C d
           @ [EvMmap NULL (mmap_result E 0), EvMemset (mmap_result E 0), EvReadyInc,
              EvGoObserved, EvClock]
           @ toggles (mmap_result E 0) (nat (num_ops C))
           @ [EvClock, EvMunmap (mmap_result E 0)]"
proof -
  show ok: "mmap_result E 0 \<noteq> MAP_FAILED"
  proof
    assume "mmap_result E 0 = MAP_FAILED"
    from failed_worker_states [OF assms(1) this assms(2)] assms(3) show False by simp
  qed
  have "t = \<lparr>wpc = PDone, wst = worker_timed E (num_ops C) (log_events [EvGoObserved]
           (log_events [EvReadyInc] (worker_setup (bench C) (topo C) E (wst (new_worker d)))))\<rparr>"
    using assms(2) unfolding worker_traj_A_ok [OF assms(1) ok] Let_def
    by (rule traj_done_is_last) (simp_all add: assms(3))
  then have w: "wst t = worker_timed E (num_ops C) (log_events [EvGoObserved]
           (log_events [EvReadyInc] (worker_setup (bench C) (topo C) E (wst (new_worker d)))))"
    by simp
  show "wdata (wst t) = d\<lparr>region := mmap_result E 0,
                            ops := ops d + 2 * word_of_int (num_ops C),
                            elapsed_sec := elapsed (clock_result E 0) (clock_result E 1)\<rparr>"
    unfolding w using ok assms(4)
    by (simp add: worker_timed_eq worker_setup_eq log_events_def new_worker_def)
  show "wlog (wst t) = pin_events C d
           @ [EvMmap NULL (mmap_result E 0), EvMemset (mmap_result E 0), EvReadyInc,
              EvGoObserved, EvClock]
           @ toggles (mmap_result E 0) (nat (num_ops C))
           @ [EvClock, EvMunmap (mmap_result E 0)]"
    unfolding w using ok assms(1,4)
    by (simp add: worker_timed_eq worker_setup_eq log_events_def new_worker_def pin_events_def)
qed

lemma done_B:
  assumes "bench C = Bench4" "t \<in> set (worker_traj C E d)" "wpc t = PDone"
  shows "wst t = run_workload (operation C) E (num_ops C)
           \<lparr>wdata = d, mmap_calls = 0, clock_calls = 0,
            tstart = \<lparr>tv_sec = 0, tv_nsec = 0\<rparr>, tend = \<lparr>tv_sec = 0, tv_nsec = 0\<rparr>,
            wlog = pin_events C d @ [EvReadyInc, EvGoObserved]\<rparr>"
proof -
  have "t = \<lparr>wpc = PDone, wst = run_workload (operation C) E (num_ops C) (log_events [EvGoObserved]
           (log_events [EvReadyInc] (log_events (pin_to_node_first_cpu (topo C) WORKER_NODE)
              (wst (new_worker d)))))\<rparr>"
    using assms(2) unfolding worker_traj_B [OF assms(1)] Let_def
    by (rule traj_done_is_last) (simp_all add: assms(3))
  then show ?thesis
    by (simp add: log_events_def new_worker_def pin_events_def assms(1))
qed


lemma run_worker_traj:
  assumes "g = run C sched (init_state sds wds)" "i < length (workers g)"
  shows "workers g ! i \<in> set (worker_traj C (env C i) (wds ! i))" "i < length wds"
proof -
  have t: "traj_inv C wds g" unfolding assms(1) by (rule traj_inv_run)
  with assms(2) show "i < length wds" by (simp add: traj_inv_def)
  with t show "workers g ! i \<in> set (worker_traj C (env C i) (wds ! i))"
    by (simp add: traj_inv_def)
qed

lemma report34_run:
  assumes "g = run C sched (init_state sds [d])" "\<not> is12 (bench C)" "dpc g = DDone"
  shows "report g = Some (report34 (wdata (wst (workers g ! 0))))"
    "terminated (wpc (workers g ! 0))"
proof -
  have "drv34_inv g" unfolding assms(1) by (rule drv34_inv_run) (simp_all add: assms(2))
  with assms(3) show "report g = Some (report34 (wdata (wst (workers g ! 0))))"
    "terminated (wpc (workers g ! 0))"
    by (auto simp: drv34_inv_def)
qed

text \<open>
  C1.  For every iteration count \<open>N\<close> (a non-negative \<open>int\<close>): in every run of benchmark
  1, 2 or 3, and of benchmark 4 with operation \<open>mprotect\<close> when the pre-allocation
  succeeds, a worker that has completed has \<open>ops = 2N\<close>; between its two clock readings
  it has issued exactly \<open>N\<close> times a change to read-only followed by a change to
  read-write; and the report of benchmarks 3 and 4 shows \<open>2N\<close> operations.  One
  iteration adds 2 to the counter, whatever \<open>mprotect\<close> returns.
\<close>

theorem protect_toggle_completed_ops:
  assumes "0 \<le> n" "n \<le> 2147483647"
    and "((b = Bench1 \<or> b = Bench2) \<and> main12 b n T ok Es = Inr (C, g0)) \<or>
         main34 Bench3 n opn T ok E S = Inr (C, g0) \<or>
         (main34 Bench4 n OP_MPROTECT T ok E S = Inr (C, g0) \<and> mmap_result E 0 \<noteq> MAP_FAILED)"
    and "g = run C sched g0" "i < length (workers g)" "wpc (workers g ! i) = PDone"
  shows "uint (ops (wdata (wst (workers g ! i)))) = 2 * n \<and>
         (\<exists>pre r. wlog (wst (workers g ! i))
             = pre @ [EvClock] @ toggles r (nat n) @ [EvClock, EvMunmap r]) \<and>
         (\<not> is12 (bench C) \<and> dpc g = DDone \<longrightarrow>
            (\<exists>rep. report g = Some rep \<and> uint (rep_ops rep) = 2 * n)) \<and>
         ops (wdata (mprotect_body st)) = ops (wdata st) + 2 \<and>
         wlog (mprotect_body st) = wlog st @ toggles (region (wdata st)) 1"
proof -
  have "\<exists>sds wds. g0 = init_state sds wds \<and> (\<forall>d\<in>set wds. ops d = 0) \<and> num_ops C = n \<and>
          (is12 (bench C) \<or> length wds = 1) \<and>
          (bench C = Bench4 \<longrightarrow> operation C = OP_MPROTECT \<and> (\<forall>j. mmap_result (env C j) 0 \<noteq> MAP_FAILED))"
  proof -
    from assms(3) consider
      (a) "b = Bench1 \<or> b = Bench2" "main12 b n T ok Es = Inr (C, g0)"
      | (b) "main34 Bench3 n opn T ok E S = Inr (C, g0)"
      | (c) "main34 Bench4 n OP_MPROTECT T ok E S = Inr (C, g0)" "mmap_result E 0 \<noteq> MAP_FAILED"
      by blast
    then show ?thesis
    proof cases
    case a
    note b = a(1) and m = a(2)
    from main12_bench(6) [OF m] obtain wds where
      "g0 = init_state [] wds" "\<forall>d\<in>set wds. ops d = 0 \<and> elapsed_sec d = 0" by blast
    moreover from b main12_bench(1,2) [OF m] have "is12 (bench C)" "bench C \<noteq> Bench4" "num_ops C = n"
      by (auto simp: is12_def)
    ultimately show ?thesis by blast
  next
    case b
    note m = b
    from main34_bench(6) [OF m] obtain sds where
      "g0 = init_state sds [\<lparr>node = 0, region = 0, elapsed_sec = 0, ops = 0\<rparr>]" by blast
    moreover have "\<forall>d\<in>set [\<lparr>node = 0, region = 0, elapsed_sec = 0, ops = (0::64 word)\<rparr>]. ops d = 0"
      "length [\<lparr>node = 0, region = 0, elapsed_sec = 0, ops = (0::64 word)\<rparr>] = 1" by simp_all
    moreover from main34_bench(1,2) [OF m] have "bench C \<noteq> Bench4" "num_ops C = n" by simp_all
    ultimately show ?thesis by blast
  next
    case c
    note m = c(1) and ok = c(2)
    from main34_bench(6) [OF m] obtain sds where
      "g0 = init_state sds [\<lparr>node = 0, region = 0, elapsed_sec = 0, ops = 0\<rparr>]" by blast
    moreover have "\<forall>d\<in>set [\<lparr>node = 0, region = 0, elapsed_sec = 0, ops = (0::64 word)\<rparr>]. ops d = 0"
      "length [\<lparr>node = 0, region = 0, elapsed_sec = 0, ops = (0::64 word)\<rparr>] = 1" by simp_all
    moreover from main34_bench(2,3,5) [OF m] ok
    have "num_ops C = n" "operation C = OP_MPROTECT" "\<forall>j. mmap_result (env C j) 0 \<noteq> MAP_FAILED"
      by simp_all
    ultimately show ?thesis by blast
  qed
  qed
  then obtain sds wds where g0: "g0 = init_state sds wds"
    and z: "\<forall>d\<in>set wds. ops d = 0" and n: "num_ops C = n"
    and one: "is12 (bench C) \<or> length wds = 1"
    and b4: "bench C = Bench4 \<longrightarrow> operation C = OP_MPROTECT \<and> (\<forall>j. mmap_result (env C j) 0 \<noteq> MAP_FAILED)"
    by blast
  have g: "g = run C sched (init_state sds wds)" by (simp add: assms(4) g0)
  note tr = run_worker_traj [OF g assms(5)]
  from tr(2) z have z': "ops (wds ! i) = 0" by simp
  have main: "ops (wdata (wst (workers g ! i))) = 2 * word_of_int n \<and>
         (\<exists>pre r. wlog (wst (workers g ! i))
             = pre @ [EvClock] @ toggles r (nat n) @ [EvClock, EvMunmap r])"
  proof (cases "bench C = Bench4")
    case False
    from assms(1) n have nn: "0 \<le> num_ops C" by simp
    note d = done_A [OF False tr(1) assms(6) nn]
    from d(2) z' n have "ops (wdata (wst (workers g ! i))) = 2 * word_of_int n" by simp
    moreover from d(3) n have "wlog (wst (workers g ! i))
        = (pin_events C (wds ! i) @ [EvMmap NULL (mmap_result (env C i) 0),
             EvMemset (mmap_result (env C i) 0), EvReadyInc, EvGoObserved])
          @ [EvClock] @ toggles (mmap_result (env C i) 0) (nat n)
          @ [EvClock, EvMunmap (mmap_result (env C i) 0)]"
      by simp
    ultimately show ?thesis by blast
  next
    case True
    with b4 have o: "operation C = OP_MPROTECT" and ok: "mmap_result (env C i) 0 \<noteq> MAP_FAILED"
      by simp_all
    note d = done_B [OF True tr(1) assms(6)]
    from d o ok assms(1) n z'
    have "ops (wdata (wst (workers g ! i))) = 2 * word_of_int n"
      by (simp add: run_workload_def do_mprotect_workload_ok)
    moreover from d o ok assms(1) n have "wlog (wst (workers g ! i))
        = (pin_events C (wds ! i) @ [EvReadyInc, EvGoObserved,
             EvMmap NULL (mmap_result (env C i) 0), EvMemset (mmap_result (env C i) 0)])
          @ [EvClock] @ toggles (mmap_result (env C i) 0) (nat n)
          @ [EvClock, EvMunmap (mmap_result (env C i) 0)]"
      by (simp add: run_workload_def do_mprotect_workload_ok)
    ultimately show ?thesis by blast
  qed
  then have u: "uint (ops (wdata (wst (workers g ! i)))) = 2 * n"
    using uint_twice [OF assms(1,2)] by simp
  have rep: "\<exists>rep. report g = Some rep \<and> uint (rep_ops rep) = 2 * n"
    if "\<not> is12 (bench C)" "dpc g = DDone"
  proof -
    from that one obtain d where wds: "wds = [d]" by (cases wds) auto
    from tr(2) wds have i0: "i = 0" by simp
    from report34_run(1) [OF g [unfolded wds] that] u i0 show ?thesis
      by (simp add: report34_def)
  qed
  from main u rep show ?thesis
    by (auto simp: mprotect_body_eq toggles_def)
qed

theorem protect_toggle_completed_ops_witness:
  "(0::int) \<le> 2 \<and> (2::int) \<le> 2147483647 \<and>
   main34 Bench3 2 OP_MPROTECT ex_topo ex_ok ex_env 1
     = Inr (ex_config Bench3 2 OP_MPROTECT ex_env, ex_init) \<and>
   length (workers (ex_final Bench3 2 OP_MPROTECT ex_env)) = 1 \<and>
   wpc (workers (ex_final Bench3 2 OP_MPROTECT ex_env) ! 0) = PDone \<and>
   dpc (ex_final Bench3 2 OP_MPROTECT ex_env) = DDone \<and>
   uint (ops (wdata (wst (workers (ex_final Bench3 2 OP_MPROTECT ex_env) ! 0)))) = 2 * 2 \<and>
   map_option rep_ops (report (ex_final Bench3 2 OP_MPROTECT ex_env)) = Some 4"
proof -
  have m: "main34 Bench3 2 OP_MPROTECT ex_topo ex_ok ex_env 1
     = Inr (ex_config Bench3 2 OP_MPROTECT ex_env, ex_init)"
    by (simp add: setup_defs eval_defs)
  have e: "length (workers (ex_final Bench3 2 OP_MPROTECT ex_env)) = 1"
    "(0::nat) < length (workers (ex_final Bench3 2 OP_MPROTECT ex_env))"
    "wpc (workers (ex_final Bench3 2 OP_MPROTECT ex_env) ! 0) = PDone"
    "dpc (ex_final Bench3 2 OP_MPROTECT ex_env) = DDone"
    "map_option rep_ops (report (ex_final Bench3 2 OP_MPROTECT ex_env)) = Some 4"
    by (simp_all add: eval_defs)
  have f: "ex_final Bench3 2 OP_MPROTECT ex_env
             = run (ex_config Bench3 2 OP_MPROTECT ex_env) ex_sched ex_init"
    by (simp add: ex_final_def)
  from protect_toggle_completed_ops [OF _ _ disjI2 [OF disjI1 [OF m]] f e(2) e(3)]
  show ?thesis using m e by simp
qed

subsection \<open>Benchmark 4 can always be completed\<close>































subsection \<open>The driver of benchmarks 1 and 2\<close>














subsection \<open>Spinners\<close>

lemma spins_simps [simp]:
  "spins [] = 0" "spins (l @ l') = spins l + spins l'"
  "spins (e # l) = (if e = EvSpinInc then Suc (spins l) else spins l)"
  "spins (pin_to_cpu c) = 0" "spins (replicate k EvSpinInc) = k"
  by (simp_all add: spins_def pin_to_cpu_def)

lemma spinner_log_spins:
  "spins (spinner_log d p k) = (if p = PMain \<or> p = PDone then k else 0)"
  by (cases p) (simp_all add: spinner_log_def)

lemma spinner_ok_init: "spinner_ok d (new_spinner d)"
  by (simp add: spinner_ok_def new_spinner_def spinner_log_def)

lemma spinner_ok_step:
  assumes "spinner_ok d t"
  shows "spinner_ok d (spinner_step g s t)"
proof (cases "spc t")
  case PStart
  with assms show ?thesis by (simp add: spinner_ok_def spinner_step_def spinner_log_def)
next
  case PReady
  with assms show ?thesis by (simp add: spinner_ok_def spinner_step_def spinner_log_def)
next
  case PPoll
  with assms show ?thesis by (simp add: spinner_ok_def spinner_step_def spinner_log_def)
next
  case PMain
  from assms PMain have l: "slog t = pin_to_cpu (cpu d) @ [EvReadyInc, EvGoObserved]
      @ replicate (spins (slog t)) EvSpinInc"
    and sd: "sdata t = d\<lparr>spin_count := spin_count d + of_nat (spins (slog t))\<rparr>"
    by (simp_all add: spinner_ok_def spinner_log_def)
  show ?thesis
  proof (cases "s = 0")
    case True
    have "slog t @ [EvSpinInc] = pin_to_cpu (cpu d) @ [EvReadyInc, EvGoObserved]
      @ replicate (Suc (spins (slog t))) EvSpinInc"
      by (subst l) (simp add: replicate_append_same)
    with True PMain sd show ?thesis
      by (simp add: spinner_ok_def spinner_step_def spinner_log_def add.assoc)
  next
    case False
    have "slog t @ [EvStopObserved] = pin_to_cpu (cpu d) @ [EvReadyInc, EvGoObserved]
      @ replicate (spins (slog t)) EvSpinInc @ [EvStopObserved]"
      by (subst l) simp
    with False PMain sd show ?thesis
      by (simp add: spinner_ok_def spinner_step_def spinner_log_def)
  qed
next
  case PDone
  with assms show ?thesis by (simp add: spinner_ok_def spinner_step_def)
next
  case PFailed
  with assms show ?thesis by (simp add: spinner_ok_def)
qed

lemma spinners_ok_step:
  assumes "length (spinners g) = length sds"
    and "\<And>i. i < length sds \<Longrightarrow> spinner_ok (sds ! i) (spinners g ! i)"
    and "i < length sds"
  shows "spinner_ok (sds ! i) (spinners (step C a g) ! i)"
proof (cases a)
  case Driver
  with assms show ?thesis by (simp add: step_def driver_step_threads)
next
  case (Worker j)
  with assms show ?thesis by (simp add: step_worker_frame)
next
  case (Spinner j)
  with assms show ?thesis
    by (cases "j = i") (simp_all add: step_def spinner_ok_step)
qed

lemma spinners_ok_run:
  assumes "g = run C sched (init_state sds wds)" "i < length (spinners g)"
  shows "spinner_ok (sds ! i) (spinners g ! i)" "i < length sds"
proof -
  have "length (spinners (run C sched (init_state sds wds))) = length sds \<and>
        (\<forall>i<length sds. spinner_ok (sds ! i) (spinners (run C sched (init_state sds wds)) ! i))"
  proof (rule run_invariant)
    show "length (spinners (init_state sds wds)) = length sds \<and>
        (\<forall>i<length sds. spinner_ok (sds ! i) (spinners (init_state sds wds) ! i))"
      by (simp add: init_state_threads spinner_ok_init)
  next
    fix a and h :: gstate
    assume "length (spinners h) = length sds \<and> (\<forall>i<length sds. spinner_ok (sds ! i) (spinners h ! i))"
    then show "length (spinners (step C a h)) = length sds \<and>
        (\<forall>i<length sds. spinner_ok (sds ! i) (spinners (step C a h) ! i))"
      by (simp add: step_lengths spinners_ok_step)
  qed
  with assms show "spinner_ok (sds ! i) (spinners g ! i)" "i < length sds" by simp_all
qed

text \<open>The log of a spinner only grows, by at most one event a step.\<close>

lemma spinner_step_log:
  "\<exists>es. slog (spinner_step g s t) = slog t @ es \<and> length es \<le> 1 \<and>
        (started_pc (spc t) \<longrightarrow> set es \<subseteq> {EvSpinInc, EvStopObserved}) \<and>
        (started_pc (spc t) \<longrightarrow> started_pc (spc (spinner_step g s t)))"
  by (cases "spc t") (simp_all add: spinner_step_def started_pc_def pin_to_cpu_def)

lemma step_spinner_log:
  assumes "i < length (spinners g)"
  shows "\<exists>es. slog (spinners (step C a g) ! i) = slog (spinners g ! i) @ es \<and> length es \<le> 1 \<and>
        (started_pc (spc (spinners g ! i)) \<longrightarrow> set es \<subseteq> {EvSpinInc, EvStopObserved}) \<and>
        (started_pc (spc (spinners g ! i)) \<longrightarrow> started_pc (spc (spinners (step C a g) ! i)))"
proof (cases a)
  case Driver
  then show ?thesis by (simp add: step_def driver_step_threads)
next
  case (Worker j)
  then show ?thesis by (simp add: step_worker_frame)
next
  case (Spinner j)
  show ?thesis
  proof (cases "j = i")
    case True
    with Spinner assms spinner_step_log [of "go g" "stop_spinners g" "spinners g ! i"]
    show ?thesis by (simp add: step_def)
  next
    case False
    with Spinner show ?thesis by (simp add: step_def)
  qed
qed

lemma run_spinner_log:
  assumes "i < length (spinners g)"
  shows "\<exists>es. slog (spinners (run C sched g) ! i) = slog (spinners g ! i) @ es \<and>
        length es \<le> length sched \<and>
        (started_pc (spc (spinners g ! i)) \<longrightarrow> set es \<subseteq> {EvSpinInc, EvStopObserved}) \<and>
        (started_pc (spc (spinners g ! i)) \<longrightarrow> started_pc (spc (spinners (run C sched g) ! i)))"
proof (induction sched rule: rev_induct)
  case Nil
  then show ?case by simp
next
  case (snoc a sched)
  then obtain es where es: "slog (spinners (run C sched g) ! i) = slog (spinners g ! i) @ es"
    "length es \<le> length sched"
    "started_pc (spc (spinners g ! i)) \<longrightarrow> set es \<subseteq> {EvSpinInc, EvStopObserved}"
    "started_pc (spc (spinners g ! i)) \<longrightarrow> started_pc (spc (spinners (run C sched g) ! i))"
    by blast
  from assms have "i < length (spinners (run C sched g))" by (simp add: run_lengths)
  from step_spinner_log [OF this, of C a] obtain es' where es':
    "slog (spinners (step C a (run C sched g)) ! i) = slog (spinners (run C sched g) ! i) @ es'"
    "length es' \<le> 1"
    "started_pc (spc (spinners (run C sched g) ! i)) \<longrightarrow> set es' \<subseteq> {EvSpinInc, EvStopObserved}"
    "started_pc (spc (spinners (run C sched g) ! i))
       \<longrightarrow> started_pc (spc (spinners (step C a (run C sched g)) ! i))"
    by blast
  have "slog (spinners (run C (sched @ [a]) g) ! i) = slog (spinners g ! i) @ (es @ es')"
    by (simp add: run_snoc es'(1) es(1))
  moreover have "length (es @ es') \<le> length (sched @ [a])" using es(2) es'(2) by simp
  moreover have "started_pc (spc (spinners g ! i)) \<longrightarrow> set (es @ es') \<subseteq> {EvSpinInc, EvStopObserved}"
    using es(3,4) es'(3) by auto
  moreover have "started_pc (spc (spinners g ! i))
      \<longrightarrow> started_pc (spc (spinners (run C (sched @ [a]) g) ! i))"
    using es(4) es'(4) by (simp add: run_snoc)
  ultimately show ?case by blast
qed

lemma spinner_loop_zero:
  "spinner_loop T ok S nd s acc = Inr r \<Longrightarrow> \<forall>d\<in>set acc. spin_count d = 0 \<Longrightarrow>
   \<forall>d\<in>set r. spin_count d = 0"
proof (induction T ok S nd s acc rule: spinner_loop.induct)
  case (1 T ok S nd s acc)
  show ?case
  proof (cases "s < S")
    case False
    with "1.prems" show ?thesis by (simp add: spinner_loop.simps [of T ok S nd s acc])
  next
    case True
    show ?thesis
    proof (cases "get_cpu_for_node T nd s < 0")
      case neg: True
      with True "1.prems" have r: "spinner_loop T ok S nd (s + 1) acc = Inr r"
        by (simp add: spinner_loop.simps [of T ok S nd s acc])
      from "1.IH"(1) [OF True refl neg r "1.prems"(2)] show ?thesis .
    next
      case pos: False
      with True "1.prems" have k: "ok (length acc)"
        and r: "spinner_loop T ok S nd (s + 1)
                  (acc @ [\<lparr>id_s = int (length acc), node_s = nd, cpu = get_cpu_for_node T nd s,
                           spin_count = 0\<rparr>]) = Inr r"
        by (auto simp: spinner_loop.simps [of T ok S nd s acc] Let_def split: if_splits)
      from k have nk: "\<not> \<not> ok (length acc)" by simp
      from "1.prems"(2) have z: "\<forall>d\<in>set (acc @ [\<lparr>id_s = int (length acc), node_s = nd,
          cpu = get_cpu_for_node T nd s, spin_count = 0\<rparr>]). spin_count d = 0" by simp
      from "1.IH"(2) [OF True refl pos nk r z] show ?thesis .
    qed
  qed
qed

lemma node_loop_zero:
  "node_loop T ok S M nd acc = Inr r \<Longrightarrow> \<forall>d\<in>set acc. spin_count d = 0 \<Longrightarrow>
   \<forall>d\<in>set r. spin_count d = 0"
proof (induction T ok S M nd acc rule: node_loop.induct)
  case (1 T ok S M nd acc)
  show ?case
  proof (cases "nd < M")
    case False
    with "1.prems" show ?thesis by (simp add: node_loop.simps [of T ok S M nd acc])
  next
    case True
    show ?thesis
    proof (cases "nd = WORKER_NODE")
      case w: True
      have "node_loop T ok S M nd acc = node_loop T ok S M (nd + 1) acc"
        using True w by (subst node_loop.simps) simp
      with "1.prems" have r: "node_loop T ok S M (nd + 1) acc = Inr r" by simp
      from "1.IH"(1) [OF True w r "1.prems"(2)] show ?thesis .
    next
      case nw: False
      with True "1.prems" obtain acc' where
        a: "spinner_loop T ok S nd 0 acc = Inr acc'"
        and r: "node_loop T ok S M (nd + 1) acc' = Inr r"
        by (auto simp: node_loop.simps [of T ok S M nd acc] split: sum.splits)
      from "1.IH"(2) [OF True nw a r spinner_loop_zero [OF a "1.prems"(2)]] show ?thesis .
    qed
  qed
qed

lemma main_setup_zero:
  assumes "main_setup T ok S = Inr (sds, nspin, nrdy)"
  shows "\<forall>d\<in>set sds. spin_count d = 0"
proof (cases "0 < S * (configured_nodes T - 1)")
  case True
  with assms obtain r where n: "node_loop T ok S (configured_nodes T) 0 [] = Inr r"
    and c: "create_worker ok (r, int (length r), int (length r) + 1) = Inr (sds, nspin, nrdy)"
    by (auto simp: main_setup_def Let_def split: if_splits sum.splits)
  from c have "sds = r" by (auto simp: create_worker_def split: if_splits)
  with node_loop_zero [OF n] show ?thesis by simp
next
  case False
  with assms have "create_worker ok ([], S * (configured_nodes T - 1),
      S * (configured_nodes T - 1) + 1) = Inr (sds, nspin, nrdy)"
    by (auto simp: main_setup_def Let_def split: if_splits sum.splits)
  then have "sds = []" by (auto simp: create_worker_def split: if_splits)
  then show ?thesis by simp
qed

lemma spinner_log_no_mm: "e \<in> set (spinner_log d p k) \<Longrightarrow> \<not> mm_syscall e"
  by (cases p) (auto simp: spinner_log_def pin_to_cpu_def mm_syscall_def)

lemma spinner_log_one_ready:
  "length (filter (\<lambda>e. e = EvReadyInc) (spinner_log d p k)) \<le> 1"
  by (cases p) (simp_all add: spinner_log_def pin_to_cpu_def)

lemma spinner_log_cpu: "cpu d' = cpu d \<Longrightarrow> spinner_log d' p k = spinner_log d p k"
  by (cases p) (simp_all add: spinner_log_def)

lemma spins_append_le: "spins l \<le> spins (l @ es)"
  by simp

lemma spins_le_length: "spins l \<le> length l"
  by (simp add: spins_def)

lemma step_spinner_others:
  "j \<noteq> i \<Longrightarrow> spinners (step C (Spinner i) g) ! j = spinners g ! j"
  by (simp add: step_def)

lemma step_spinner_ready:
  "i < length (spinners g) \<Longrightarrow>
   ready_count (step C (Spinner i) g)
     = (if spc (spinners g ! i) = PReady then ready_count g + 1 else ready_count g)"
  by (simp add: step_def)

lemma step_spinner_main:
  assumes "i < length (spinners g)" "spc (spinners g ! i) = PMain"
  shows "spinners (step C (Spinner i) g) ! i =
     (if stop_spinners g \<noteq> 0
      then (spinners g ! i)\<lparr>spc := PDone, slog := slog (spinners g ! i) @ [EvStopObserved]\<rparr>
      else (spinners g ! i)\<lparr>sdata := (sdata (spinners g ! i))
               \<lparr>spin_count := spin_count (sdata (spinners g ! i)) + 1\<rparr>,
             slog := slog (spinners g ! i) @ [EvSpinInc]\<rparr>)"
  using assms by (simp add: step_def spinner_step_def)

text \<open>
  C8.  In every run of benchmark 3 or 4, for every spinner: its log is its affinity
  binding, one increment of \<open>ready_count\<close>, the observation of \<open>go\<close>, then only
  increments of its own spin counter, then the observation of \<open>stop_spinners\<close>; it
  holds no memory-management system call.  What a spinner in its main loop adds to its
  log later in the run is increments of the counter and the observation of stop.  The
  counter is the number of increments (modulo \<open>2^64\<close>), which never decreases, so the
  counter itself never decreases in a run of fewer than \<open>2^64\<close> steps.  A step of the
  spinner leaves \<open>go\<close>, \<open>stop_spinners\<close>, the driver, the workers and the other spinners
  as they are, and changes \<open>ready_count\<close> only at its one ready increment; in its main
  loop it either adds 1 to its counter or, when stop is set, leaves the loop.
\<close>

theorem spinner_only_spins:
  assumes "main34 b n opn T ok E S = Inr (C, g0)"
    and "g1 = run C s1 g0" and "g2 = run C s2 g1"
    and "i < length (spinners g1)"
  shows "(\<exists>es. slog (spinners g2 ! i) = slog (spinners g1 ! i) @ es \<and>
            (spc (spinners g1 ! i) = PMain \<longrightarrow> set es \<subseteq> {EvSpinInc, EvStopObserved})) \<and>
         slog (spinners g1 ! i)
           = spinner_log (sdata (spinners g1 ! i)) (spc (spinners g1 ! i))
               (spins (slog (spinners g1 ! i))) \<and>
         (\<forall>e\<in>set (slog (spinners g1 ! i)). \<not> mm_syscall e) \<and>
         length (filter (\<lambda>e. e = EvReadyInc) (slog (spinners g1 ! i))) \<le> 1 \<and>
         spin_count (sdata (spinners g1 ! i)) = of_nat (spins (slog (spinners g1 ! i))) \<and>
         spins (slog (spinners g1 ! i)) \<le> spins (slog (spinners g2 ! i)) \<and>
         (length s1 + length s2 < 2 ^ 64 \<longrightarrow>
            unat (spin_count (sdata (spinners g1 ! i)))
              \<le> unat (spin_count (sdata (spinners g2 ! i)))) \<and>
         go (step C (Spinner i) g1) = go g1 \<and>
         stop_spinners (step C (Spinner i) g1) = stop_spinners g1 \<and>
         workers (step C (Spinner i) g1) = workers g1 \<and>
         dpc (step C (Spinner i) g1) = dpc g1 \<and>
         report (step C (Spinner i) g1) = report g1 \<and>
         (\<forall>j. j \<noteq> i \<longrightarrow> spinners (step C (Spinner i) g1) ! j = spinners g1 ! j) \<and>
         ready_count (step C (Spinner i) g1)
           = (if spc (spinners g1 ! i) = PReady then ready_count g1 + 1 else ready_count g1) \<and>
         (spc (spinners g1 ! i) = PMain \<longrightarrow>
            spinners (step C (Spinner i) g1) ! i =
              (if stop_spinners g1 \<noteq> 0
               then (spinners g1 ! i)\<lparr>spc := PDone,
                      slog := slog (spinners g1 ! i) @ [EvStopObserved]\<rparr>
               else (spinners g1 ! i)\<lparr>sdata := (sdata (spinners g1 ! i))
                        \<lparr>spin_count := spin_count (sdata (spinners g1 ! i)) + 1\<rparr>,
                      slog := slog (spinners g1 ! i) @ [EvSpinInc]\<rparr>))"
proof -
  from main34_init [OF assms(1)] obtain sds nspin nrdy where
    m: "main_setup T ok S = Inr (sds, nspin, nrdy)"
    and g0: "g0 = init_state sds [\<lparr>node = 0, region = 0, elapsed_sec = 0, ops = 0\<rparr>]"
    by auto
  define wds where "wds = [\<lparr>node = 0, region = 0, elapsed_sec = 0, ops = (0::64 word)\<rparr>]"
  have g1: "g1 = run C s1 (init_state sds wds)" by (simp add: assms(2) g0 wds_def)
  have g2: "g2 = run C (s1 @ s2) (init_state sds wds)"
    by (simp add: assms(3) g1 run_append)
  have i2: "i < length (spinners g2)" using assms(4) by (simp add: assms(3) run_lengths)
  note ok1 = spinners_ok_run [OF g1 assms(4)]
  note ok2 = spinners_ok_run [OF g2 i2]
  from main_setup_zero [OF m] ok1(2) have z: "spin_count (sds ! i) = 0" by simp
  from ok1(1) have c1: "cpu (sdata (spinners g1 ! i)) = cpu (sds ! i)"
    by (simp add: spinner_ok_def)
  from ok1(1) spinner_log_cpu [OF c1]
  have l1: "slog (spinners g1 ! i)
           = spinner_log (sdata (spinners g1 ! i)) (spc (spinners g1 ! i))
               (spins (slog (spinners g1 ! i)))"
    by (simp add: spinner_ok_def)
  from l1 spinner_log_no_mm have mm: "\<forall>e\<in>set (slog (spinners g1 ! i)). \<not> mm_syscall e"
    by metis
  from l1 spinner_log_one_ready
  have one: "length (filter (\<lambda>e. e = EvReadyInc) (slog (spinners g1 ! i))) \<le> 1" by metis
  from ok1(1) z have s1: "spin_count (sdata (spinners g1 ! i)) = of_nat (spins (slog (spinners g1 ! i)))"
    by (simp add: spinner_ok_def)
  from ok2(1) z have s2: "spin_count (sdata (spinners g2 ! i)) = of_nat (spins (slog (spinners g2 ! i)))"
    by (simp add: spinner_ok_def)
  from run_spinner_log [OF assms(4), of C s2] obtain es where
    es: "slog (spinners g2 ! i) = slog (spinners g1 ! i) @ es"
    "started_pc (spc (spinners g1 ! i)) \<longrightarrow> set es \<subseteq> {EvSpinInc, EvStopObserved}"
    unfolding assms(3) by blast
  then have pre: "\<exists>es. slog (spinners g2 ! i) = slog (spinners g1 ! i) @ es \<and>
            (spc (spinners g1 ! i) = PMain \<longrightarrow> set es \<subseteq> {EvSpinInc, EvStopObserved})"
    by (auto simp: started_pc_def)
  from es(1) have mono: "spins (slog (spinners g1 ! i)) \<le> spins (slog (spinners g2 ! i))"
    by simp
  have il: "i < length (spinners (init_state sds wds))" using ok1(2) by (simp add: init_state_threads)
  from run_spinner_log [OF il, of C "s1 @ s2"] ok1(2)
  have "length (slog (spinners g2 ! i)) \<le> length (s1 @ s2)"
    unfolding g2 by (auto simp: init_state_threads new_spinner_def)
  with spins_le_length [of "slog (spinners g2 ! i)"]
  have b2: "spins (slog (spinners g2 ! i)) \<le> length s1 + length s2" by simp
  have u: "unat (spin_count (sdata (spinners g1 ! i)))
              \<le> unat (spin_count (sdata (spinners g2 ! i)))"
    if "length s1 + length s2 < 2 ^ 64"
  proof -
    from that b2 mono have "spins (slog (spinners g2 ! i)) < 2 ^ 64"
      "spins (slog (spinners g1 ! i)) < 2 ^ 64" by simp_all
    then have "unat (of_nat (spins (slog (spinners g2 ! i))) :: 64 word) = spins (slog (spinners g2 ! i))"
      "unat (of_nat (spins (slog (spinners g1 ! i))) :: 64 word) = spins (slog (spinners g1 ! i))"
      by (simp_all add: unat_of_nat)
    with mono show ?thesis by (simp add: s1 s2)
  qed
  from pre l1 mm one s1 mono u assms(4) show ?thesis
    by (simp add: step_spinner_frame thread_step_dpc step_spinner_others step_spinner_ready
        step_spinner_main)
qed

theorem spinner_only_spins_witness:
  "main34 Bench3 2 OP_MPROTECT ex_topo ex_ok ex_env 1
     = Inr (ex_config Bench3 2 OP_MPROTECT ex_env, ex_init) \<and>
   length (spinners (run (ex_config Bench3 2 OP_MPROTECT ex_env) (take 7 ex_sched) ex_init)) = 1 \<and>
   spc (spinners (run (ex_config Bench3 2 OP_MPROTECT ex_env) (take 7 ex_sched) ex_init) ! 0) = PMain \<and>
   ex_final Bench3 2 OP_MPROTECT ex_env
     = run (ex_config Bench3 2 OP_MPROTECT ex_env) (drop 7 ex_sched)
         (run (ex_config Bench3 2 OP_MPROTECT ex_env) (take 7 ex_sched) ex_init) \<and>
   length (take 7 ex_sched) + length (drop 7 ex_sched) < (2::nat) ^ 64 \<and>
   slog (spinners (ex_final Bench3 2 OP_MPROTECT ex_env) ! 0)
     = slog (spinners (run (ex_config Bench3 2 OP_MPROTECT ex_env) (take 7 ex_sched) ex_init) ! 0)
       @ [EvSpinInc, EvStopObserved] \<and>
   unat (spin_count (sdata (spinners
       (run (ex_config Bench3 2 OP_MPROTECT ex_env) (take 7 ex_sched) ex_init) ! 0)))
     \<le> unat (spin_count (sdata (spinners (ex_final Bench3 2 OP_MPROTECT ex_env) ! 0))) \<and>
   spin_count (sdata (spinners (ex_final Bench3 2 OP_MPROTECT ex_env) ! 0)) = 1"
proof -
  have m: "main34 Bench3 2 OP_MPROTECT ex_topo ex_ok ex_env 1
     = Inr (ex_config Bench3 2 OP_MPROTECT ex_env, ex_init)"
    by (simp add: setup_defs eval_defs)
  have f: "ex_final Bench3 2 OP_MPROTECT ex_env
     = run (ex_config Bench3 2 OP_MPROTECT ex_env) (drop 7 ex_sched)
         (run (ex_config Bench3 2 OP_MPROTECT ex_env) (take 7 ex_sched) ex_init)"
    unfolding ex_final_def run_append [symmetric] by simp
  have e: "length (spinners (run (ex_config Bench3 2 OP_MPROTECT ex_env) (take 7 ex_sched) ex_init)) = 1"
    "(0::nat) < length (spinners (run (ex_config Bench3 2 OP_MPROTECT ex_env) (take 7 ex_sched) ex_init))"
    "spc (spinners (run (ex_config Bench3 2 OP_MPROTECT ex_env) (take 7 ex_sched) ex_init) ! 0) = PMain"
    by (simp_all add: eval_defs)
  have l: "length (take 7 ex_sched) + length (drop 7 ex_sched) < (2::nat) ^ 64"
    by (simp add: ex_sched_def)
  have s: "slog (spinners (ex_final Bench3 2 OP_MPROTECT ex_env) ! 0)
     = slog (spinners (run (ex_config Bench3 2 OP_MPROTECT ex_env) (take 7 ex_sched) ex_init) ! 0)
       @ [EvSpinInc, EvStopObserved]"
    "spin_count (sdata (spinners (ex_final Bench3 2 OP_MPROTECT ex_env) ! 0)) = 1"
    "spin_count (sdata (spinners
       (run (ex_config Bench3 2 OP_MPROTECT ex_env) (take 7 ex_sched) ex_init) ! 0)) = 0"
    by (simp_all add: eval_defs)
  from spinner_only_spins [OF m refl f e(2)] l
  have "unat (spin_count (sdata (spinners
       (run (ex_config Bench3 2 OP_MPROTECT ex_env) (take 7 ex_sched) ex_init) ! 0)))
     \<le> unat (spin_count (sdata (spinners (ex_final Bench3 2 OP_MPROTECT ex_env) ! 0)))"
    by blast
  with m f e s(1,2) l show ?thesis by blast
qed

end
